theory Spec2Isabelle
  imports Complex_Main "HOL-Library.AList" "HOL-Library.Monad_Syntax" "HOL-Library.Word"
    "HOL-Library.Log_Nat"
begin

section \<open>Memory model: nodes, shared and weak pointers\<close>

text \<open>
  The cache of \<^verbatim>\<open>KFifoCache.h\<close> keeps its entries in a doubly linked list of heap
  nodes.  A node is owned through \<^verbatim>\<open>std::shared_ptr\<close> (the index \<^verbatim>\<open>nodeMap_\<close>, the
  \<^verbatim>\<open>next_\<close> field of its predecessor, the members \<^verbatim>\<open>dummyHead_\<close> and \<^verbatim>\<open>dummyTail_\<close>,
  local variables) and observed through \<^verbatim>\<open>std::weak_ptr\<close> (the \<^verbatim>\<open>prev_\<close> field).
  The store maps addresses to live nodes; a node carries the use count of its
  control block and leaves the store when that count drops to zero.  An operation
  returns \<open>None\<close> where the C++ program would dereference a null pointer, and in two
  situations that shared pointers rule out: a shared pointer to a destroyed node, and
  a cascade of destructions longer than the number of nodes ever allocated.
  The mutex is not modelled: every operation runs from its first to its last
  statement under the lock.
\<close>

type_synonym addr = nat

record ('k, 'v) FifoNode =
  node_key :: 'k
  node_value :: 'v
  node_prev :: "addr option"
  node_next :: "addr option"
  use_count :: nat

type_synonym ('k, 'v) store = "addr \<Rightarrow> ('k, 'v) FifoNode option"

definition modify ::
  "addr \<Rightarrow> (('k, 'v) FifoNode \<Rightarrow> ('k, 'v) FifoNode) \<Rightarrow> ('k, 'v) store \<Rightarrow> ('k, 'v) store option" where
  "modify a f h = (case h a of None \<Rightarrow> None | Some n \<Rightarrow> Some (h(a \<mapsto> f n)))"

text \<open>Copying a shared pointer to the node at \<open>a\<close>.\<close>

definition acquire :: "addr \<Rightarrow> ('k, 'v) store \<Rightarrow> ('k, 'v) store option" where
  "acquire a h = modify a (\<lambda>n. n\<lparr>use_count := use_count n + 1\<rparr>) h"

text \<open>
  Destroying a shared pointer to the node at \<open>a\<close>.  The last owner destroys the node,
  and with it the node's own \<^verbatim>\<open>next_\<close> pointer, which may destroy the next node in
  turn.  The first argument bounds the length of that cascade; callers pass the
  allocation frontier, which exceeds the number of live nodes.
\<close>

fun release :: "nat \<Rightarrow> addr \<Rightarrow> ('k, 'v) store \<Rightarrow> ('k, 'v) store option" where
  "release 0 a h = None"
| "release (Suc fuel) a h =
     (case h a of
        None \<Rightarrow> None
      | Some n \<Rightarrow>
          if 1 < use_count n then Some (h(a \<mapsto> n\<lparr>use_count := use_count n - 1\<rparr>))
          else (case node_next n of
                  None \<Rightarrow> Some (h(a := None))
                | Some b \<Rightarrow> release fuel b (h(a := None))))"

text \<open>\<^verbatim>\<open>weak_ptr::expired\<close>: the pointer is empty or its node has been destroyed.\<close>

definition expired :: "('k, 'v) store \<Rightarrow> addr option \<Rightarrow> bool" where
  "expired h w = (case w of None \<Rightarrow> True | Some a \<Rightarrow> h a = None)"

text \<open>
  Assignment \<^verbatim>\<open>a->next_ = p\<close> of a shared pointer: the new target gains an owner, the
  field is overwritten, the old target loses an owner.
\<close>

definition set_next :: "nat \<Rightarrow> addr \<Rightarrow> addr option \<Rightarrow> ('k, 'v) store \<Rightarrow> ('k, 'v) store option" where
  "set_next fuel a p h =
     do {
       n \<leftarrow> h a;
       h1 \<leftarrow> (case p of None \<Rightarrow> Some h | Some b \<Rightarrow> acquire b h);
       h2 \<leftarrow> modify a (\<lambda>m. m\<lparr>node_next := p\<rparr>) h1;
       (case node_next n of None \<Rightarrow> Some h2 | Some old \<Rightarrow> release fuel old h2)
     }"

text \<open>Assignment \<^verbatim>\<open>a->prev_ = w\<close> of a weak pointer: no use count changes.\<close>

definition set_prev :: "addr \<Rightarrow> addr option \<Rightarrow> ('k, 'v) store \<Rightarrow> ('k, 'v) store option" where
  "set_prev a w h = modify a (\<lambda>m. m\<lparr>node_prev := w\<rparr>) h"

section \<open>KFifoCache\<close>

text \<open>
  Field and member names drop the trailing underscore of the source; the node's
  fields are prefixed with \<open>node\<close>.
  \<^verbatim>\<open>capacity_\<close> is a C++ \<^verbatim>\<open>int\<close>, a 32-bit word read as a signed number by \<open>sint\<close>;
  \<^verbatim>\<open>nodeMap_\<close> is an \<^verbatim>\<open>unordered_map\<close>, here an association
  list with unique keys whose length is \<^verbatim>\<open>size()\<close>.  \<open>brk\<close> is the allocation frontier:
  \<^verbatim>\<open>make_shared\<close> returns the address \<open>brk\<close> and advances it, so addresses are never
  reused.
\<close>

record ('k, 'v) KFifoCache =
  capacity :: "32 word"
  nodeMap :: "('k \<times> addr) list"
  dummyHead :: "addr option"
  dummyTail :: "addr option"
  store :: "('k, 'v) store"
  brk :: addr

definition make_shared :: "'k \<Rightarrow> 'v \<Rightarrow> ('k, 'v) KFifoCache \<Rightarrow> addr \<times> ('k, 'v) KFifoCache" where
  "make_shared k v s =
     (brk s,
      s\<lparr>store := (store s)(brk s \<mapsto>
           \<lparr>node_key = k, node_value = v, node_prev = None, node_next = None, use_count = 1\<rparr>),
        brk := Suc (brk s)\<rparr>)"

text \<open>
  \<^verbatim>\<open>initializeQueue\<close>: both sentinels hold \<^verbatim>\<open>Key()\<close> and \<^verbatim>\<open>Value()\<close>, passed here as
  \<open>dk\<close> and \<open>dv\<close>.
\<close>

definition initializeQueue :: "'k \<Rightarrow> 'v \<Rightarrow> ('k, 'v) KFifoCache \<Rightarrow> ('k, 'v) KFifoCache option" where
  "initializeQueue dk dv s =
     (let (h, s1) = make_shared dk dv s;
          s2 = s1\<lparr>dummyHead := Some h\<rparr>;
          (t, s3) = make_shared dk dv s2;
          s4 = s3\<lparr>dummyTail := Some t\<rparr>
      in do {
        h1 \<leftarrow> set_next (brk s4) h (dummyTail s4) (store s4);
        h2 \<leftarrow> set_prev t (dummyHead s4) h1;
        Some (s4\<lparr>store := h2\<rparr>)
      })"

definition KFifoCache :: "'k \<Rightarrow> 'v \<Rightarrow> 32 word \<Rightarrow> ('k, 'v) KFifoCache option" where
  "KFifoCache dk dv c =
     initializeQueue dk dv
       \<lparr>capacity = c, nodeMap = [], dummyHead = None, dummyTail = None,
        store = Map.empty, brk = 0\<rparr>"

definition updateExistingNode :: "addr \<Rightarrow> 'v \<Rightarrow> ('k, 'v) KFifoCache \<Rightarrow> ('k, 'v) KFifoCache option" where
  "updateExistingNode node v s =
     do {
       h1 \<leftarrow> modify node (\<lambda>n. n\<lparr>node_value := v\<rparr>) (store s);
       Some (s\<lparr>store := h1\<rparr>)
     }"

text \<open>
  \<^verbatim>\<open>enqueueNode\<close>.  The temporary returned by \<^verbatim>\<open>dummyTail_->prev_.lock()\<close> owns the last
  node for the duration of the third statement.  A by-value \<^verbatim>\<open>NodePtr\<close> parameter is
  a copy of a pointer the caller holds for the whole call, so it leaves every use
  count as it was; such copies are not written out.
\<close>

definition enqueueNode :: "addr \<Rightarrow> ('k, 'v) KFifoCache \<Rightarrow> ('k, 'v) KFifoCache option" where
  "enqueueNode node s =
     do {
       t \<leftarrow> dummyTail s;
       tn \<leftarrow> store s t;
       h1 \<leftarrow> set_prev node (node_prev tn) (store s);
       h2 \<leftarrow> set_next (brk s) node (Some t) h1;
       tn2 \<leftarrow> h2 t;
       l \<leftarrow> (if expired h2 (node_prev tn2) then None else node_prev tn2);
       h3 \<leftarrow> acquire l h2;
       h4 \<leftarrow> set_next (brk s) l (Some node) h3;
       h5 \<leftarrow> release (brk s) l h4;
       h6 \<leftarrow> set_prev t (Some node) h5;
       Some (s\<lparr>store := h6\<rparr>)
     }"

definition removeNode :: "addr \<Rightarrow> ('k, 'v) KFifoCache \<Rightarrow> ('k, 'v) KFifoCache option" where
  "removeNode node s =
     do {
       n \<leftarrow> store s node;
       if \<not> expired (store s) (node_prev n) \<and> node_next n \<noteq> None then
         do {
           prev \<leftarrow> node_prev n;
           h1 \<leftarrow> acquire prev (store s);
           n1 \<leftarrow> h1 node;
           h2 \<leftarrow> set_next (brk s) prev (node_next n1) h1;
           n2 \<leftarrow> h2 node;
           nx \<leftarrow> node_next n2;
           h3 \<leftarrow> set_prev nx (Some prev) h2;
           h4 \<leftarrow> set_next (brk s) node None h3;
           h5 \<leftarrow> release (brk s) prev h4;
           Some (s\<lparr>store := h5\<rparr>)
         }
       else Some s
     }"

text \<open>
  \<^verbatim>\<open>nodeMap_.erase(key)\<close>: the entry goes, and with it the shared pointer it held.
\<close>

definition erase :: "'k \<Rightarrow> ('k, 'v) KFifoCache \<Rightarrow> ('k, 'v) KFifoCache option" where
  "erase k s =
     (case map_of (nodeMap s) k of
        None \<Rightarrow> Some s
      | Some a \<Rightarrow>
          do {
            h1 \<leftarrow> release (brk s) a (store s);
            Some (s\<lparr>nodeMap := AList.delete k (nodeMap s), store := h1\<rparr>)
          })"

definition evictOldest :: "('k, 'v) KFifoCache \<Rightarrow> ('k, 'v) KFifoCache option" where
  "evictOldest s =
     do {
       h0 \<leftarrow> dummyHead s;
       hn \<leftarrow> store s h0;
       oldestNode \<leftarrow> node_next hn;
       h1 \<leftarrow> acquire oldestNode (store s);
       s1 \<leftarrow> removeNode oldestNode (s\<lparr>store := h1\<rparr>);
       n \<leftarrow> store s1 oldestNode;
       s2 \<leftarrow> erase (node_key n) s1;
       h2 \<leftarrow> release (brk s2) oldestNode (store s2);
       Some (s2\<lparr>store := h2\<rparr>)
     }"

text \<open>
  \<^verbatim>\<open>addNewNode\<close>.  The test \<^verbatim>\<open>nodeMap_.size() >= capacity_\<close> compares a \<^verbatim>\<open>size_t\<close> with an
  \<^verbatim>\<open>int\<close>, so \<^verbatim>\<open>capacity_\<close> is first converted to the unsigned 64-bit type (\<open>scast\<close>: sign
  extension) and the comparison is unsigned.
  \<^verbatim>\<open>nodeMap_[key] = newNode\<close> stores a second owner of the new node (the key is not in
  the map on this path, so no pointer is overwritten); the local \<^verbatim>\<open>newNode\<close> is
  destroyed on return.
\<close>

definition addNewNode :: "'k \<Rightarrow> 'v \<Rightarrow> ('k, 'v) KFifoCache \<Rightarrow> ('k, 'v) KFifoCache option" where
  "addNewNode k v s =
     do {
       s1 \<leftarrow> (if (word_of_nat (length (nodeMap s)) :: 64 word) \<ge> scast (capacity s)
             then evictOldest s else Some s);
       let (newNode, s2) = make_shared k v s1;
       s3 \<leftarrow> enqueueNode newNode s2;
       h1 \<leftarrow> (case map_of (nodeMap s3) k of
                None \<Rightarrow> acquire newNode (store s3)
              | Some old \<Rightarrow> do { h \<leftarrow> acquire newNode (store s3); release (brk s3) old h });
       h2 \<leftarrow> release (brk s3) newNode h1;
       Some (s3\<lparr>nodeMap := AList.update k newNode (nodeMap s3), store := h2\<rparr>)
     }"

definition put :: "'k \<Rightarrow> 'v \<Rightarrow> ('k, 'v) KFifoCache \<Rightarrow> ('k, 'v) KFifoCache option" where
  "put k v s =
     (if sint (capacity s) \<le> 0 then Some s
      else (case map_of (nodeMap s) k of
              Some node \<Rightarrow> updateExistingNode node v s
            | None \<Rightarrow> addNewNode k v s))"

text \<open>
  \<^verbatim>\<open>bool get(Key key, Value& value)\<close>: the second argument is the caller's variable on
  entry, the second component of the result is that variable on return.  The body
  writes to nothing else, so the cache comes back as it was.
\<close>

definition get :: "'k \<Rightarrow> 'v \<Rightarrow> ('k, 'v) KFifoCache \<Rightarrow> (bool \<times> 'v \<times> ('k, 'v) KFifoCache) option" where
  "get k v s =
     (case map_of (nodeMap s) k of
        Some node \<Rightarrow> do { n \<leftarrow> store s node; Some (True, node_value n, s) }
      | None \<Rightarrow> Some (False, v, s))"

text \<open>\<^verbatim>\<open>Value get(Key key)\<close>; \<open>dv\<close> is \<^verbatim>\<open>Value{}\<close>.\<close>

definition get1 :: "'v \<Rightarrow> 'k \<Rightarrow> ('k, 'v) KFifoCache \<Rightarrow> ('v \<times> ('k, 'v) KFifoCache) option" where
  "get1 dv k s = do { (found, v, s1) \<leftarrow> get k dv s; Some (v, s1) }"

definition remove :: "'k \<Rightarrow> ('k, 'v) KFifoCache \<Rightarrow> ('k, 'v) KFifoCache option" where
  "remove k s =
     (case map_of (nodeMap s) k of
        Some node \<Rightarrow> do { s1 \<leftarrow> removeNode node s; erase k s1 }
      | None \<Rightarrow> Some s)"

section \<open>Double precision arithmetic\<close>

text \<open>
  The sharded constructor computes \<^verbatim>\<open>std::ceil(capacity_ / static_cast<double>(sliceNum_))\<close>
  in IEEE 754 binary64.  A finite double is a rational number; conversion from an
  integer and division return the exact result rounded to the nearest number with a
  53-bit significand, ties to the even significand (the default rounding mode).  The
  magnitudes that occur here (zero, or between \<open>2\<^sup>-\<^sup>3\<^sup>1\<close> and \<open>2\<^sup>6\<^sup>4\<close>) are far from the
  subnormal and the overflow range, so the exponent is not bounded in this model.
  \<open>ilog2 q\<close> is the exponent \<open>e\<close> with \<open>2\<^sup>e \<le> q < 2\<^sup>e\<^sup>+\<^sup>1\<close>, for \<open>q > 0\<close>.
\<close>

definition pow2 :: "int \<Rightarrow> rat" where
  "pow2 e = (if 0 \<le> e then 2 ^ nat e else 1 / 2 ^ nat (- e))"

definition ilog2 :: "rat \<Rightarrow> int" where
  "ilog2 q = (if 1 \<le> q then bitlen \<lfloor>q\<rfloor> - 1 else - bitlen (\<lceil>1 / q\<rceil> - 1))"

definition round_even :: "rat \<Rightarrow> int" where
  "round_even x =
     (let f = \<lfloor>x\<rfloor>; d = x - of_int f in
      if d < 1 / 2 then f
      else if 1 / 2 < d then f + 1
      else if even f then f else f + 1)"

definition round_double :: "rat \<Rightarrow> rat" where
  "round_double q =
     (if q = 0 then 0
      else let u = pow2 (ilog2 \<bar>q\<bar> - 52) in sgn q * of_int (round_even (\<bar>q\<bar> / u)) * u)"

section \<open>KHashFifoCache\<close>

text \<open>
  \<^verbatim>\<open>capacity_\<close> is a \<^verbatim>\<open>size_t\<close> (64 bits), \<^verbatim>\<open>sliceNum_\<close> an \<^verbatim>\<open>int\<close>.  Every shard is a
  \<^verbatim>\<open>KFifoCache\<close> with a store of its own: shards share no node.  The methods \<^verbatim>\<open>put\<close>
  and \<^verbatim>\<open>get\<close> of this class are \<open>hash_put\<close> and \<open>hash_get\<close> here.
\<close>

record ('k, 'v) KHashFifoCache =
  total_capacity :: "64 word"
  sliceNum :: "32 word"
  fifoSliceCaches :: "('k, 'v) KFifoCache list"

text \<open>
  The loop of the constructor: \<open>n\<close> shards, each built by \<^verbatim>\<open>KFifoCache(sliceSize)\<close>, where
  the \<^verbatim>\<open>size_t\<close> argument is narrowed to the \<^verbatim>\<open>int\<close> parameter.
\<close>

fun make_slices :: "nat \<Rightarrow> 'k \<Rightarrow> 'v \<Rightarrow> 32 word \<Rightarrow> ('k, 'v) KFifoCache list option" where
  "make_slices 0 dk dv c = Some []"
| "make_slices (Suc n) dk dv c =
     do { s \<leftarrow> KFifoCache dk dv c; r \<leftarrow> make_slices n dk dv c; Some (s # r) }"

text \<open>
  The constructor.  \<open>hw\<close> is what \<^verbatim>\<open>std::thread::hardware_concurrency()\<close> returns, an
  \<^verbatim>\<open>unsigned int\<close> stored into the \<^verbatim>\<open>int\<close> member.  With \<^verbatim>\<open>sliceNum_\<close> zero the quotient is
  infinite or not a number, and when the rounded-up quotient is negative or at least
  \<open>2\<^sup>6\<^sup>4\<close> its conversion to \<^verbatim>\<open>size_t\<close> has no defined result: \<open>None\<close>.
\<close>

definition KHashFifoCache ::
  "32 word \<Rightarrow> 'k \<Rightarrow> 'v \<Rightarrow> 64 word \<Rightarrow> 32 word \<Rightarrow> ('k, 'v) KHashFifoCache option" where
  "KHashFifoCache hw dk dv cap n0 =
     (let n = (if 0 < sint n0 then n0 else hw) in
      if n = 0 then None
      else
        let sliceSize = \<lceil>round_double (round_double (of_int (uint cap)) / of_int (sint n))\<rceil> in
        if sliceSize < 0 \<or> 2 ^ 64 \<le> sliceSize then None
        else
          do {
            slices \<leftarrow> make_slices (nat (sint n)) dk dv (word_of_int sliceSize);
            Some \<lparr>total_capacity = cap, sliceNum = n, fifoSliceCaches = slices\<rparr>
          })"

text \<open>\<^verbatim>\<open>Hash\<close>; \<open>hashFunc\<close> is \<^verbatim>\<open>std::hash<Key>\<close>.\<close>

definition Hash :: "('k \<Rightarrow> 64 word) \<Rightarrow> 'k \<Rightarrow> 64 word" where
  "Hash hashFunc k = hashFunc k"

text \<open>
  \<^verbatim>\<open>Hash(key) % sliceNum_\<close> converts \<^verbatim>\<open>sliceNum_\<close> to \<^verbatim>\<open>size_t\<close>; a zero divisor and an index
  outside the vector have no defined result.
\<close>

definition hash_put ::
  "('k \<Rightarrow> 64 word) \<Rightarrow> 'k \<Rightarrow> 'v \<Rightarrow> ('k, 'v) KHashFifoCache \<Rightarrow> ('k, 'v) KHashFifoCache option" where
  "hash_put hashFunc k v h =
     (if sliceNum h = 0 then None
      else
        let sliceIndex = unat (Hash hashFunc k mod scast (sliceNum h)) in
        if length (fifoSliceCaches h) \<le> sliceIndex then None
        else
          do {
            s \<leftarrow> put k v (fifoSliceCaches h ! sliceIndex);
            Some (h\<lparr>fifoSliceCaches := (fifoSliceCaches h)[sliceIndex := s]\<rparr>)
          })"

definition hash_get ::
  "('k \<Rightarrow> 64 word) \<Rightarrow> 'k \<Rightarrow> 'v \<Rightarrow> ('k, 'v) KHashFifoCache \<Rightarrow>
   (bool \<times> 'v \<times> ('k, 'v) KHashFifoCache) option" where
  "hash_get hashFunc k v h =
     (if sliceNum h = 0 then None
      else
        let sliceIndex = unat (Hash hashFunc k mod scast (sliceNum h)) in
        if length (fifoSliceCaches h) \<le> sliceIndex then None
        else
          do {
            (found, v1, s) \<leftarrow> get k v (fifoSliceCaches h ! sliceIndex);
            Some (found, v1, h\<lparr>fifoSliceCaches := (fifoSliceCaches h)[sliceIndex := s]\<rparr>)
          })"

definition hash_get1 ::
  "('k \<Rightarrow> 64 word) \<Rightarrow> 'v \<Rightarrow> 'k \<Rightarrow> ('k, 'v) KHashFifoCache \<Rightarrow> ('v \<times> ('k, 'v) KHashFifoCache) option" where
  "hash_get1 hashFunc dv k h = do { (found, v, h1) \<leftarrow> hash_get hashFunc k dv h; Some (v, h1) }"

section \<open>Call sequences\<close>

text \<open>
  A client drives a cache through its public methods.  \<open>Get k v\<close> is a call of the
  two-argument \<^verbatim>\<open>get\<close> whose second argument holds \<open>v\<close> on entry.
\<close>

datatype ('k, 'v) call = Put 'k 'v | Get 'k 'v | Remove 'k

fun exec :: "('k, 'v) call \<Rightarrow> ('k, 'v) KFifoCache \<Rightarrow> ('k, 'v) KFifoCache option" where
  "exec (Put k v) s = put k v s"
| "exec (Get k v) s = map_option (\<lambda>r. snd (snd r)) (get k v s)"
| "exec (Remove k) s = remove k s"

fun run :: "('k, 'v) call list \<Rightarrow> ('k, 'v) KFifoCache \<Rightarrow> ('k, 'v) KFifoCache option" where
  "run [] s = Some s"
| "run (c # cs) s = exec c s \<bind> run cs"

datatype ('k, 'v) hash_call = HashPut 'k 'v | HashGet 'k 'v

fun hash_exec ::
  "('k \<Rightarrow> 64 word) \<Rightarrow> ('k, 'v) hash_call \<Rightarrow> ('k, 'v) KHashFifoCache \<Rightarrow> ('k, 'v) KHashFifoCache option" where
  "hash_exec hashFunc (HashPut k v) h = hash_put hashFunc k v h"
| "hash_exec hashFunc (HashGet k v) h = map_option (\<lambda>r. snd (snd r)) (hash_get hashFunc k v h)"

fun hash_run ::
  "('k \<Rightarrow> 64 word) \<Rightarrow> ('k, 'v) hash_call list \<Rightarrow> ('k, 'v) KHashFifoCache \<Rightarrow> ('k, 'v) KHashFifoCache option" where
  "hash_run hashFunc [] h = Some h"
| "hash_run hashFunc (c # cs) h = hash_exec hashFunc c h \<bind> hash_run hashFunc cs"

section \<open>Observations\<close>

text \<open>
  The queue as the pointers spell it: start at \<^verbatim>\<open>dummyHead_->next_\<close> and follow \<^verbatim>\<open>next_\<close>
  until \<^verbatim>\<open>dummyTail_\<close> is reached, collecting address, key and payload of every node
  passed.  The walk gives up (\<open>None\<close>) on a null or dangling pointer and after
  \<open>brk\<close> steps, which is more than there are nodes.  \<open>walk_back\<close> goes the other way,
  from \<^verbatim>\<open>dummyTail_->prev_\<close> along \<^verbatim>\<open>prev_\<close> to \<^verbatim>\<open>dummyHead_\<close>.
\<close>

fun walk :: "nat \<Rightarrow> ('k, 'v) store \<Rightarrow> addr \<Rightarrow> addr \<Rightarrow> (addr \<times> 'k \<times> 'v) list option" where
  "walk 0 h a t = None"
| "walk (Suc fuel) h a t =
     (if a = t then Some []
      else (case h a of
              None \<Rightarrow> None
            | Some n \<Rightarrow>
                (case node_next n of
                   None \<Rightarrow> None
                 | Some b \<Rightarrow> map_option ((#) (a, node_key n, node_value n)) (walk fuel h b t))))"

fun walk_back :: "nat \<Rightarrow> ('k, 'v) store \<Rightarrow> addr \<Rightarrow> addr \<Rightarrow> (addr \<times> 'k \<times> 'v) list option" where
  "walk_back 0 h a t = None"
| "walk_back (Suc fuel) h a t =
     (if a = t then Some []
      else (case h a of
              None \<Rightarrow> None
            | Some n \<Rightarrow>
                (case node_prev n of
                   None \<Rightarrow> None
                 | Some b \<Rightarrow> map_option ((#) (a, node_key n, node_value n)) (walk_back fuel h b t))))"

definition linked :: "('k, 'v) KFifoCache \<Rightarrow> (addr \<times> 'k \<times> 'v) list option" where
  "linked s =
     do {
       h0 \<leftarrow> dummyHead s;
       t \<leftarrow> dummyTail s;
       hn \<leftarrow> store s h0;
       a \<leftarrow> node_next hn;
       walk (brk s) (store s) a t
     }"

definition linked_back :: "('k, 'v) KFifoCache \<Rightarrow> (addr \<times> 'k \<times> 'v) list option" where
  "linked_back s =
     do {
       h0 \<leftarrow> dummyHead s;
       t \<leftarrow> dummyTail s;
       tn \<leftarrow> store s t;
       a \<leftarrow> node_prev tn;
       walk_back (brk s) (store s) a h0
     }"

text \<open>The entries in queue order, oldest first.\<close>

definition queue :: "('k, 'v) KFifoCache \<Rightarrow> ('k \<times> 'v) list option" where
  "queue s = map_option (map snd) (linked s)"

text \<open>The keys of the index, and what \<^verbatim>\<open>nodeMap_.size()\<close> returns.\<close>

definition index_keys :: "('k, 'v) KFifoCache \<Rightarrow> 'k set" where
  "index_keys s = fst ` set (nodeMap s)"

definition entry_count :: "('k, 'v) KFifoCache \<Rightarrow> nat" where
  "entry_count s = length (nodeMap s)"

text \<open>
  Index and queue agree: the queue can be walked from sentinel to sentinel in both
  directions with the same result, the index has one entry per key, and the index
  maps \<open>k\<close> to the node at \<open>a\<close> exactly when that node is linked into the queue and holds
  the key \<open>k\<close>.
\<close>

definition index_agrees :: "('k, 'v) KFifoCache \<Rightarrow> bool" where
  "index_agrees s =
     (case linked s of
        None \<Rightarrow> False
      | Some q \<Rightarrow>
          linked_back s = Some (rev q) \<and>
          distinct (map fst (nodeMap s)) \<and>
          set (nodeMap s) = set (map (\<lambda>(a, k, v). (k, a)) q))"

section \<open>The FIFO discipline on lists\<close>

text \<open>
  What the specification says a FIFO cache of capacity \<open>C\<close> does, on the list of entries
  in insertion order: \<open>put\<close> of a present key replaces the payload where it stands,
  \<open>put\<close> of a new key drops the oldest entry of a full cache and appends, \<open>remove\<close>
  deletes the entry, a capacity of zero or less accepts nothing.
\<close>

definition fifo_put :: "int \<Rightarrow> 'k \<Rightarrow> 'v \<Rightarrow> ('k \<times> 'v) list \<Rightarrow> ('k \<times> 'v) list" where
  "fifo_put C k v es =
     (if C \<le> 0 then es
      else if k \<in> fst ` set es then map (\<lambda>(k', v'). if k' = k then (k', v) else (k', v')) es
      else (if C \<le> int (length es) then tl es else es) @ [(k, v)])"

definition fifo_remove :: "'k \<Rightarrow> ('k \<times> 'v) list \<Rightarrow> ('k \<times> 'v) list" where
  "fifo_remove k es = filter (\<lambda>(k', v'). k' \<noteq> k) es"

fun fifo_exec :: "int \<Rightarrow> ('k, 'v) call \<Rightarrow> ('k \<times> 'v) list \<Rightarrow> ('k \<times> 'v) list" where
  "fifo_exec C (Put k v) es = fifo_put C k v es"
| "fifo_exec C (Get k v) es = es"
| "fifo_exec C (Remove k) es = fifo_remove k es"

definition fifo_run :: "int \<Rightarrow> ('k, 'v) call list \<Rightarrow> ('k \<times> 'v) list \<Rightarrow> ('k \<times> 'v) list" where
  "fifo_run C cs es = fold (fifo_exec C) cs es"

section \<open>The representation invariant\<close>

text \<open>
  \<open>links h a p n\<close>: the node at \<open>a\<close> is live, its \<^verbatim>\<open>prev_\<close> is \<open>p\<close> and its \<^verbatim>\<open>next_\<close> is \<open>n\<close>.
  \<open>dll h p l n\<close>: the addresses \<open>l\<close> form a doubly linked segment that is entered from
  \<open>p\<close> and left to \<open>n\<close>.
\<close>

definition links :: "('k, 'v) store \<Rightarrow> addr \<Rightarrow> addr option \<Rightarrow> addr option \<Rightarrow> bool" where
  "links h a p n = (case h a of None \<Rightarrow> False | Some x \<Rightarrow> node_prev x = p \<and> node_next x = n)"

fun first :: "addr list \<Rightarrow> addr option \<Rightarrow> addr option" where
  "first [] n = n"
| "first (a # r) n = Some a"

fun dll :: "('k, 'v) store \<Rightarrow> addr option \<Rightarrow> addr list \<Rightarrow> addr option \<Rightarrow> bool" where
  "dll h p [] n = True"
| "dll h p (a # r) n = (links h a p (first r n) \<and> dll h (Some a) r n)"

definition lastopt :: "addr option \<Rightarrow> addr list \<Rightarrow> addr option" where
  "lastopt p l = (if l = [] then p else Some (last l))"

text \<open>
  \<open>cache_inv s h0 t q\<close>: the sentinels are at \<open>h0\<close> and \<open>t\<close>; the nodes of \<open>q\<close> (address, key,
  payload) are linked between them in this order; nothing else is live; the head has
  one owner and every other node two; the index holds exactly the pairs of key and
  address of \<open>q\<close>; keys are unique; the entry count respects the capacity.
\<close>

definition cache_inv ::
  "('k, 'v) KFifoCache \<Rightarrow> addr \<Rightarrow> addr \<Rightarrow> (addr \<times> 'k \<times> 'v) list \<Rightarrow> bool" where
  "cache_inv s h0 t q =
     (dummyHead s = Some h0 \<and> dummyTail s = Some t \<and>
      distinct (h0 # map fst q @ [t]) \<and>
      dll (store s) None (h0 # map fst q @ [t]) None \<and>
      (\<forall>(a, k, v) \<in> set q. \<exists>n. store s a = Some n \<and> node_key n = k \<and> node_value n = v) \<and>
      (\<forall>a n. store s a = Some n \<longrightarrow>
         a \<in> set (h0 # map fst q @ [t]) \<and> a < brk s \<and> use_count n = (if a = h0 then 1 else 2)) \<and>
      distinct (map fst (nodeMap s)) \<and>
      set (nodeMap s) = (\<lambda>(a, k, v). (k, a)) ` set q \<and>
      distinct (map (\<lambda>(a, k, v). k) q) \<and>
      int (length q) \<le> max 0 (sint (capacity s)))"

text \<open>The part of \<^verbatim>\<open>addNewNode\<close> after the eviction test.\<close>

definition appendNew :: "'k \<Rightarrow> 'v \<Rightarrow> ('k, 'v) KFifoCache \<Rightarrow> ('k, 'v) KFifoCache option" where
  "appendNew k v s1 =
     (let (newNode, s2) = make_shared k v s1 in
      do {
        s3 \<leftarrow> enqueueNode newNode s2;
        h1 \<leftarrow> (case map_of (nodeMap s3) k of
                 None \<Rightarrow> acquire newNode (store s3)
               | Some old \<Rightarrow> do { h \<leftarrow> acquire newNode (store s3); release (brk s3) old h });
        h2 \<leftarrow> release (brk s3) newNode h1;
        Some (s3\<lparr>nodeMap := AList.update k newNode (nodeMap s3), store := h2\<rparr>)
      })"

text \<open>
  \<open>hash_inv h c\<close>: the sharded cache has as many shards as \<^verbatim>\<open>sliceNum_\<close> says, and every
  shard is a well-formed cache of capacity \<open>c\<close>.
\<close>

definition hash_inv :: "('k, 'v) KHashFifoCache \<Rightarrow> 32 word \<Rightarrow> bool" where
  "hash_inv h c =
     (sliceNum h \<noteq> 0 \<and> length (fifoSliceCaches h) = nat (sint (sliceNum h)) \<and>
      (\<forall>s \<in> set (fifoSliceCaches h). capacity s = c \<and> (\<exists>q. cache_inv s 0 1 q)))"

section \<open>What each operation does to a well-linked store\<close>

lemma release_shared:
  "0 < f \<Longrightarrow> h a = Some n \<Longrightarrow> 1 < use_count n \<Longrightarrow>
   release f a h = Some (h(a \<mapsto> n\<lparr>use_count := use_count n - 1\<rparr>))"
  by (cases f) simp_all

lemma release_last:
  "0 < f \<Longrightarrow> h a = Some n \<Longrightarrow> use_count n \<le> 1 \<Longrightarrow> node_next n = None \<Longrightarrow>
   release f a h = Some (h(a := None))"
  by (cases f) simp_all

lemmas prim_defs = expired_def acquire_def modify_def set_next_def set_prev_def

lemma removeNode_linked:
  assumes "store s x = Some nx" "node_prev nx = Some y" "node_next nx = Some z"
    and "store s y = Some ny" "node_next ny = Some x"
    and "store s z = Some nz"
    and "x \<noteq> y" "x \<noteq> z" "y \<noteq> z" "1 < use_count nx" "0 < use_count ny" "0 < use_count nz" "0 < brk s"
  shows "removeNode x s =
    Some (s\<lparr>store := (store s)
       (y \<mapsto> ny\<lparr>node_next := Some z\<rparr>,
        z \<mapsto> nz\<lparr>node_prev := Some y\<rparr>,
        x \<mapsto> nx\<lparr>node_next := None, use_count := use_count nx - 1\<rparr>)\<rparr>)"
  using assms
  apply (simp add: removeNode_def prim_defs release_shared release_last)
  apply (rule arg_cong[where f="\<lambda>h. s\<lparr>store := h\<rparr>"])
  apply (auto simp: fun_eq_iff)
  done

lemma enqueueNode_linked:
  assumes "dummyTail s = Some t" "store s t = Some tn" "node_prev tn = Some l"
    and "store s l = Some nl" "node_next nl = Some t"
    and "store s f = Some fn" "node_next fn = None"
    and "f \<noteq> l" "f \<noteq> t" "l \<noteq> t" "0 < use_count tn" "0 < use_count nl" "0 < brk s"
  shows "enqueueNode f s =
    Some (s\<lparr>store := (store s)
       (f \<mapsto> fn\<lparr>node_prev := Some l, node_next := Some t, use_count := use_count fn + 1\<rparr>,
        l \<mapsto> nl\<lparr>node_next := Some f\<rparr>,
        t \<mapsto> tn\<lparr>node_prev := Some f\<rparr>)\<rparr>)"
  using assms
  by (simp add: enqueueNode_def prim_defs release_shared release_last)

lemma erase_last_owner:
  assumes "map_of (nodeMap s) k = Some a" "store s a = Some n" "use_count n = 1"
    "node_next n = None" "0 < brk s"
  shows "erase k s = Some (s\<lparr>nodeMap := AList.delete k (nodeMap s), store := (store s)(a := None)\<rparr>)"
  using assms by (simp add: erase_def release_last)

lemma remove_linked:
  assumes "map_of (nodeMap s) k = Some x"
    and "store s x = Some nx" "node_prev nx = Some y" "node_next nx = Some z"
    and "store s y = Some ny" "node_next ny = Some x"
    and "store s z = Some nz"
    and "x \<noteq> y" "x \<noteq> z" "y \<noteq> z" "use_count nx = 2" "0 < use_count ny" "0 < use_count nz" "0 < brk s"
  shows "remove k s =
    Some (s\<lparr>nodeMap := AList.delete k (nodeMap s),
           store := (store s)
       (y \<mapsto> ny\<lparr>node_next := Some z\<rparr>,
        z \<mapsto> nz\<lparr>node_prev := Some y\<rparr>,
        x := None)\<rparr>)"
  using assms
  by (simp add: remove_def removeNode_linked erase_last_owner)

lemma evictOldest_linked:
  assumes "dummyHead s = Some y" 
    and "store s x = Some nx" "node_prev nx = Some y" "node_next nx = Some z"
    and "store s y = Some ny" "node_next ny = Some x"
    and "store s z = Some nz"
    and "map_of (nodeMap s) (node_key nx) = Some x"
    and "x \<noteq> y" "x \<noteq> z" "y \<noteq> z" "use_count nx = 2" "0 < use_count ny" "0 < use_count nz" "0 < brk s"
  shows "evictOldest s =
    Some (s\<lparr>nodeMap := AList.delete (node_key nx) (nodeMap s),
           store := (store s)
       (y \<mapsto> ny\<lparr>node_next := Some z\<rparr>,
        z \<mapsto> nz\<lparr>node_prev := Some y\<rparr>,
        x := None)\<rparr>)"
proof -
  let ?n3 = "nx\<lparr>use_count := 3\<rparr>"
  let ?s0 = "s\<lparr>store := (store s)(x \<mapsto> ?n3)\<rparr>"
  have r: "removeNode x ?s0 =
    Some (?s0\<lparr>store := (store ?s0)
       (y \<mapsto> ny\<lparr>node_next := Some z\<rparr>,
        z \<mapsto> nz\<lparr>node_prev := Some y\<rparr>,
        x \<mapsto> ?n3\<lparr>node_next := None, use_count := use_count ?n3 - 1\<rparr>)\<rparr>)"
    using assms by (intro removeNode_linked) simp_all
  show ?thesis
    using assms
    apply (simp add: evictOldest_def prim_defs r)
    apply (simp add: erase_def release_shared release_last)
    done
qed

lemma appendNew_linked:
  assumes "dummyTail s = Some t" "store s t = Some tn" "node_prev tn = Some l"
    and "store s l = Some nl" "node_next nl = Some t"
    and "store s (brk s) = None" "map_of (nodeMap s) k = None"
    and "l \<noteq> t" "0 < use_count tn" "0 < use_count nl"
  shows "appendNew k v s =
    Some (s\<lparr>nodeMap := AList.update k (brk s) (nodeMap s),
           store := (store s)
       (brk s \<mapsto> \<lparr>node_key = k, node_value = v, node_prev = Some l, node_next = Some t, use_count = 2\<rparr>,
        l \<mapsto> nl\<lparr>node_next := Some (brk s)\<rparr>,
        t \<mapsto> tn\<lparr>node_prev := Some (brk s)\<rparr>),
           brk := Suc (brk s)\<rparr>)"
proof -
  let ?f = "brk s"
  let ?fn = "\<lparr>node_key = k, node_value = v, node_prev = None, node_next = None, use_count = 1\<rparr>"
  let ?s2 = "s\<lparr>store := (store s)(?f \<mapsto> ?fn), brk := Suc ?f\<rparr>"
  have ne: "?f \<noteq> l" "?f \<noteq> t" using assms by auto
  have e: "enqueueNode ?f ?s2 =
    Some (?s2\<lparr>store := (store ?s2)
       (?f \<mapsto> ?fn\<lparr>node_prev := Some l, node_next := Some t, use_count := use_count ?fn + 1\<rparr>,
        l \<mapsto> nl\<lparr>node_next := Some ?f\<rparr>,
        t \<mapsto> tn\<lparr>node_prev := Some ?f\<rparr>)\<rparr>)"
    using assms ne by (intro enqueueNode_linked) simp_all
  show ?thesis
    using assms ne e
    apply (simp add: appendNew_def make_shared_def)
    apply (simp add: prim_defs release_shared)
    apply (auto simp: fun_eq_iff)
    done
qed

lemma addNewNode_split:
  "addNewNode k v s =
     (if (word_of_nat (length (nodeMap s)) :: 64 word) \<ge> scast (capacity s)
      then evictOldest s else Some s) \<bind> appendNew k v"
  by (simp add: addNewNode_def appendNew_def[abs_def])

lemma size_cmp:
  assumes "0 < sint (c :: 32 word)" "int n \<le> sint c"
  shows "((scast c :: 64 word) \<le> word_of_nat n) = (sint c \<le> int n)"
proof -
  have "sint c < 2 ^ (LENGTH(32) - 1)" by (rule sint_lt)
  then have b: "sint c < 2 ^ 64" by simp
  have 1: "uint (scast c :: 64 word) = sint c"
    unfolding scast_eq uint_word_of_int_eq
    using assms b by (intro take_bit_int_eq_self) simp_all
  have "(word_of_nat n :: 64 word) = word_of_int (int n)" by simp
  then have 2: "uint (word_of_nat n :: 64 word) = int n"
    unfolding uint_word_of_int_eq
    using assms b by (simp only: uint_word_of_int_eq) (intro take_bit_int_eq_self, simp_all)
  show ?thesis by (simp only: word_le_def 1 2)
qed

section \<open>Doubly linked segments\<close>

lemma lastopt_simps [simp]: "lastopt p [] = p" "lastopt p (l @ [a]) = Some a"
  "lastopt p (a # l) = lastopt (Some a) l"
  by (simp_all add: lastopt_def)

lemma first_append [simp]: "first (l1 @ l2) n = first l1 (first l2 n)"
  by (cases l1) simp_all

lemma dll_append: "dll h p (l1 @ l2) n = (dll h p l1 (first l2 n) \<and> dll h (lastopt p l1) l2 n)"
proof (induction l1 arbitrary: p)
  case Nil
  then show ?case by simp
next
  case (Cons a l1)
  show ?case by (simp add: Cons.IH conj_assoc)
qed

lemma dll_frame:
  "(\<And>a. a \<in> set l \<Longrightarrow> map_option (\<lambda>x. (node_prev x, node_next x)) (h' a) =
      map_option (\<lambda>x. (node_prev x, node_next x)) (h a)) \<Longrightarrow> dll h' p l n = dll h p l n"
proof (induction l arbitrary: p)
  case Nil
  then show ?case by simp
next
  case (Cons a l)
  have "links h' a p (first l n) = links h a p (first l n)"
    using Cons.prems[of a] by (auto simp: links_def split: option.splits)
  then show ?case using Cons by simp
qed

lemma linksD: "links h a p n \<Longrightarrow> \<exists>x. h a = Some x \<and> node_prev x = p \<and> node_next x = n"
  by (auto simp: links_def split: option.splits)

lemma dll_live: "dll h p l n \<Longrightarrow> a \<in> set l \<Longrightarrow> \<exists>x. h a = Some x"
  by (induction l arbitrary: p) (auto dest: linksD)

lemma dll_remove:
  assumes "dll h None (l1 @ y # x # z # l2) None"
    and "distinct (l1 @ y # x # z # l2)"
    and "h y = Some ny" "h z = Some nz"
    and "\<And>a. a \<notin> {x, y, z} \<Longrightarrow> h' a = h a"
    and "h' y = Some (ny\<lparr>node_next := Some z\<rparr>)" "h' z = Some (nz\<lparr>node_prev := Some y\<rparr>)"
  shows "dll h' None (l1 @ y # z # l2) None"
proof -
  have "\<And>a. a \<in> set l1 \<union> set l2 \<Longrightarrow> h' a = h a"
    using assms(2) by (intro assms(5)) auto
  then have "dll h' None l1 (Some y) = dll h None l1 (Some y)"
    and "dll h' (Some z) l2 None = dll h (Some z) l2 None"
    by (intro dll_frame; simp)+
  then show ?thesis
    using assms(1,3,4,6,7) by (auto simp: dll_append links_def)
qed

lemma dll_insert:
  assumes "dll h None (l1 @ [y, z]) None"
    and "distinct (l1 @ [y, z])" "f \<notin> set (l1 @ [y, z])"
    and "h y = Some ny" "h z = Some nz"
    and "\<And>a. a \<notin> {f, y, z} \<Longrightarrow> h' a = h a"
    and "h' y = Some (ny\<lparr>node_next := Some f\<rparr>)" "h' z = Some (nz\<lparr>node_prev := Some f\<rparr>)"
    and "h' f = Some nf" "node_prev nf = Some y" "node_next nf = Some z"
  shows "dll h' None (l1 @ [y, f, z]) None"
proof -
  have "\<And>a. a \<in> set l1 \<Longrightarrow> h' a = h a"
    using assms(2,3) by (intro assms(6)) auto
  then have "dll h' None l1 (Some y) = dll h None l1 (Some y)"
    by (intro dll_frame) simp
  then show ?thesis
    using assms(1,4,5,7-) by (auto simp: dll_append links_def)
qed

lemma cache_invD:
  assumes "cache_inv s h0 t q"
  shows "dummyHead s = Some h0" "dummyTail s = Some t"
    "distinct (h0 # map fst q @ [t])"
    "dll (store s) None (h0 # map fst q @ [t]) None"
    "\<And>a k v. (a, k, v) \<in> set q \<Longrightarrow> \<exists>n. store s a = Some n \<and> node_key n = k \<and> node_value n = v"
    "\<And>a n. store s a = Some n \<Longrightarrow> a \<in> set (h0 # map fst q @ [t])"
    "\<And>a n. store s a = Some n \<Longrightarrow> a < brk s"
    "\<And>a n. store s a = Some n \<Longrightarrow> use_count n = (if a = h0 then 1 else 2)"
    "distinct (map fst (nodeMap s))"
    "set (nodeMap s) = (\<lambda>(a, k, v). (k, a)) ` set q"
    "distinct (map (\<lambda>(a, k, v). k) q)"
    "int (length q) \<le> max 0 (sint (capacity s))"
proof -
  note a = assms[unfolded cache_inv_def]
  show "dummyHead s = Some h0" "dummyTail s = Some t" using a by simp_all
  show "distinct (h0 # map fst q @ [t])" using a by (elim conjE)
  show "dll (store s) None (h0 # map fst q @ [t]) None" using a by (elim conjE)
  have c: "\<forall>(a, k, v) \<in> set q. \<exists>n. store s a = Some n \<and> node_key n = k \<and> node_value n = v"
    using a by (elim conjE)
  show "\<exists>n. store s a = Some n \<and> node_key n = k \<and> node_value n = v" if "(a, k, v) \<in> set q" for a k v
    using c that by fast
  have l: "\<forall>a n. store s a = Some n \<longrightarrow>
         a \<in> set (h0 # map fst q @ [t]) \<and> a < brk s \<and> use_count n = (if a = h0 then 1 else 2)"
    using a by (elim conjE)
  show "a \<in> set (h0 # map fst q @ [t])" if "store s a = Some n" for a n using l that by blast
  show "a < brk s" if "store s a = Some n" for a n using l that by blast
  show "use_count n = (if a = h0 then 1 else 2)" if "store s a = Some n" for a n using l that by blast
  show "distinct (map fst (nodeMap s))" using a by (elim conjE)
  show "set (nodeMap s) = (\<lambda>(a, k, v). (k, a)) ` set q" using a by (elim conjE)
  show "distinct (map (\<lambda>(a, k, v). k) q)" using a by (elim conjE)
  show "int (length q) \<le> max 0 (sint (capacity s))" using a by (elim conjE)
qed

lemma inv_live:
  assumes "cache_inv s h0 t q" "a \<in> set (h0 # map fst q @ [t])"
  shows "\<exists>n. store s a = Some n"
  using dll_live[OF cache_invD(4)[OF assms(1)] assms(2)] .

lemma inv_brk: assumes "cache_inv s h0 t q" shows "0 < brk s" "store s (brk s) = None"
proof -
  obtain n where "store s h0 = Some n" using inv_live[OF assms, of h0] by auto
  from cache_invD(7)[OF assms this] show "0 < brk s" by simp
  show "store s (brk s) = None"
    using cache_invD(7)[OF assms, of "brk s"] by (cases "store s (brk s)") auto
qed

lemma inv_map_of:
  assumes "cache_inv s h0 t q"
  shows "(map_of (nodeMap s) k = Some a) = (\<exists>v. (a, k, v) \<in> set q)"
proof -
  have "(map_of (nodeMap s) k = Some a) = ((k, a) \<in> set (nodeMap s))"
    using cache_invD(9)[OF assms] by (auto dest: map_of_SomeD)
  also have "\<dots> = (\<exists>v. (a, k, v) \<in> set q)"
    unfolding cache_invD(10)[OF assms] by force
  finally show ?thesis .
qed

lemma inv_length:
  assumes "cache_inv s h0 t q"
  shows "length (nodeMap s) = length q"
proof -
  have dq: "distinct (map fst q)" using cache_invD(3)[OF assms] by simp
  have "inj_on (\<lambda>(a, k, v). (k, a)) (set q)"
    using dq by (auto simp: inj_on_def dest: eq_key_imp_eq_value)
  then have "card (set (nodeMap s)) = card (set q)"
    using cache_invD(10)[OF assms] by (simp add: card_image)
  moreover have "distinct (nodeMap s)" using cache_invD(9)[OF assms] by (simp add: distinct_map)
  moreover have "distinct q" using dq by (simp add: distinct_map)
  ultimately show ?thesis by (simp add: distinct_card)
qed

section \<open>The operations preserve the representation invariant\<close>

lemma cache_invI:
  assumes "dummyHead s = Some h0" "dummyTail s = Some t"
    "distinct (h0 # map fst q @ [t])"
    "dll (store s) None (h0 # map fst q @ [t]) None"
    "\<And>a k v. (a, k, v) \<in> set q \<Longrightarrow> \<exists>n. store s a = Some n \<and> node_key n = k \<and> node_value n = v"
    "\<And>a n. store s a = Some n \<Longrightarrow> a \<in> set (h0 # map fst q @ [t])"
    "\<And>a n. store s a = Some n \<Longrightarrow> a < brk s"
    "\<And>a n. store s a = Some n \<Longrightarrow> use_count n = (if a = h0 then 1 else 2)"
    "distinct (map fst (nodeMap s))"
    "set (nodeMap s) = (\<lambda>(a, k, v). (k, a)) ` set q"
    "distinct (map (\<lambda>(a, k, v). k) q)"
    "int (length q) \<le> max 0 (sint (capacity s))"
  shows "cache_inv s h0 t q"
proof -
  have c5: "\<forall>(a, k, v) \<in> set q. \<exists>n. store s a = Some n \<and> node_key n = k \<and> node_value n = v"
    using assms(5) by fast
  have c6: "\<forall>a n. store s a = Some n \<longrightarrow>
         a \<in> set (h0 # map fst q @ [t]) \<and> a < brk s \<and> use_count n = (if a = h0 then 1 else 2)"
    using assms(6-8) by blast
  show ?thesis
    unfolding cache_inv_def
    by (intro conjI; (fact assms(1-4,9-12) c5 c6))
qed

lemma update_new_key: "k \<notin> fst ` set al \<Longrightarrow> AList.update k v al = al @ [(k, v)]"
  by (induction al) auto

lemma inv_keys:
  assumes "cache_inv s h0 t q"
  shows "fst ` set (nodeMap s) = set (map (\<lambda>(a, k, v). k) q)"
  unfolding cache_invD(10)[OF assms] by force

lemma appendNew_inv:
  assumes inv: "cache_inv s h0 t q"
    and new: "map_of (nodeMap s) k = None"
    and room: "int (length q) < sint (capacity s)"
  shows "\<exists>s'. appendNew k v s = Some s' \<and> cache_inv s' h0 t (q @ [(brk s, k, v)]) \<and>
    capacity s' = capacity s"
proof -
  let ?f = "brk s"
  let ?h = "store s"
  note d = cache_invD[OF inv]
  obtain l1 l where L: "h0 # map fst q = l1 @ [l]"
    by (metis list.distinct(1) rev_exhaust)
  then have LL: "h0 # map fst q @ [t] = l1 @ [l, t]" by simp
  have dl: "dll ?h None (l1 @ [l, t]) None" and di: "distinct (l1 @ [l, t])"
    using d(3,4) unfolding LL by simp_all
  from dl have "links ?h l (lastopt None l1) (Some t)" "links ?h t (Some l) None"
    by (simp_all add: dll_append)
  then obtain nl tn where nl: "?h l = Some nl" "node_next nl = Some t"
    and tn: "?h t = Some tn" "node_prev tn = Some l" "node_next tn = None"
    by (auto dest!: linksD)
  have fr: "?h ?f = None" and pos: "0 < brk s" using inv_brk[OF inv] by simp_all
  have fnot0: "?f \<notin> set (h0 # map fst q @ [t])"
    using inv_live[OF inv, of ?f] fr by auto
  have fnot: "?f \<notin> set (l1 @ [l, t])"
    using fnot0 unfolding LL .
  have uc: "0 < use_count nl" "0 < use_count tn" "use_count tn = 2"
    using d(8)[OF nl(1)] d(8)[OF tn(1)] d(3) by (auto split: if_splits)
  have lt: "l \<noteq> t" using di by simp
  let ?nf = "\<lparr>node_key = k, node_value = v, node_prev = Some l, node_next = Some t, use_count = 2\<rparr>"
  define h' where "h' = ?h(?f \<mapsto> ?nf, l \<mapsto> nl\<lparr>node_next := Some ?f\<rparr>, t \<mapsto> tn\<lparr>node_prev := Some ?f\<rparr>)"
  define s' where "s' = s\<lparr>nodeMap := AList.update k ?f (nodeMap s), store := h', brk := Suc ?f\<rparr>"
  have res: "appendNew k v s = Some s'"
    unfolding s'_def h'_def
    using d(2) tn nl fr new lt uc by (intro appendNew_linked) simp_all
  have h'f: "h' ?f = Some ?nf" and h'l: "h' l = Some (nl\<lparr>node_next := Some ?f\<rparr>)"
    and h't: "h' t = Some (tn\<lparr>node_prev := Some ?f\<rparr>)"
    and h'o: "\<And>a. a \<notin> {?f, l, t} \<Longrightarrow> h' a = ?h a"
    using fnot lt by (auto simp: h'_def)
  have knew: "k \<notin> fst ` set (nodeMap s)" using new by (simp add: map_of_eq_None_iff)
  have "cache_inv s' h0 t (q @ [(?f, k, v)])"
  proof (rule cache_invI)
    show "dummyHead s' = Some h0" "dummyTail s' = Some t" using d(1,2) by (simp_all add: s'_def)
    have LL': "h0 # map fst (q @ [(?f, k, v)]) @ [t] = l1 @ [l, ?f, t]"
      using L by simp
    show "distinct (h0 # map fst (q @ [(?f, k, v)]) @ [t])"
      unfolding LL' using di fnot by auto
    have "dll h' None (l1 @ [l, ?f, t]) None"
      using dl di fnot nl(1) tn(1) h'o h'l h't h'f by (rule dll_insert) simp_all
    then show "dll (store s') None (h0 # map fst (q @ [(?f, k, v)]) @ [t]) None"
      unfolding LL' by (simp add: s'_def)
    show "\<exists>n. store s' a = Some n \<and> node_key n = k' \<and> node_value n = v'"
      if "(a, k', v') \<in> set (q @ [(?f, k, v)])" for a k' v'
    proof (cases "a = ?f")
      case True
      have "a \<notin> fst ` set q" using fnot0 True by simp
      then have "(a, k', v') \<notin> set q" by force
      with that True have "k' = k" "v' = v" by auto
      then show ?thesis using True h'f by (simp add: s'_def)
    next
      case False
      with that have m: "(a, k', v') \<in> set q" by auto
      then obtain n where n: "?h a = Some n" "node_key n = k'" "node_value n = v'"
        using d(5) by blast
      have "a \<in> set (map fst q)" using m by force
      then have "a \<noteq> t" using d(3) by auto
      show ?thesis
      proof (cases "a = l")
        case True
        then show ?thesis using n nl h'l by (simp add: s'_def)
      next
        case False
        then show ?thesis using n h'o[of a] \<open>a \<noteq> t\<close> \<open>a \<noteq> ?f\<close> by (simp add: s'_def)
      qed
    qed
    have live: "a = ?f \<or> ?h a \<noteq> None" if "store s' a = Some n" for a n
      using that nl tn by (auto simp: s'_def h'_def split: if_splits)
    show "a \<in> set (h0 # map fst (q @ [(?f, k, v)]) @ [t])" if "store s' a = Some n" for a n
      using live[OF that] d(6)[of a] by auto
    show "a < brk s'" if "store s' a = Some n" for a n
      using live[OF that] d(7)[of a] by (auto simp: s'_def less_Suc_eq)
    show "use_count n = (if a = h0 then 1 else 2)" if "store s' a = Some n" for a n
    proof -
      have "?f \<noteq> h0" using fnot0 by simp
      then show ?thesis
        using that d(8)[of a] d(8)[OF nl(1)] d(8)[OF tn(1)]
        by (auto simp: s'_def h'_def split: if_splits)
    qed
    show "distinct (map fst (nodeMap s'))"
      using d(9) by (simp add: s'_def distinct_update)
    show "set (nodeMap s') = (\<lambda>(a, k, v). (k, a)) ` set (q @ [(?f, k, v)])"
      using d(10) knew by (simp add: s'_def update_new_key)
    show "distinct (map (\<lambda>(a, k, v). k) (q @ [(?f, k, v)]))"
      using d(11) knew unfolding inv_keys[OF inv] by simp
    show "int (length (q @ [(?f, k, v)])) \<le> max 0 (sint (capacity s'))"
      using room by (simp add: s'_def)
  qed
  then show ?thesis using res by (auto simp: s'_def)
qed

lemma unlink_inv:
  assumes inv: "cache_inv s h0 t (q1 @ (x, k, v) # q2)"
  shows "\<exists>s'. remove k s = Some s' \<and> (q1 = [] \<longrightarrow> evictOldest s = Some s') \<and>
    cache_inv s' h0 t (q1 @ q2) \<and> capacity s' = capacity s \<and> brk s' = brk s"
proof -
  let ?q = "q1 @ (x, k, v) # q2"
  let ?h = "store s"
  note d = cache_invD[OF inv]
  obtain l1 y where L1: "h0 # map fst q1 = l1 @ [y]"
    by (metis list.distinct(1) rev_exhaust)
  obtain z l2 where L2: "map fst q2 @ [t] = z # l2"
    by (cases "map fst q2 @ [t]") simp_all
  have LL: "h0 # map fst ?q @ [t] = l1 @ y # x # z # l2"
    using L1 L2 by simp
  have LL': "h0 # map fst (q1 @ q2) @ [t] = l1 @ y # z # l2"
    using L1 L2 by simp
  have dl: "dll ?h None (l1 @ y # x # z # l2) None" and di: "distinct (l1 @ y # x # z # l2)"
    using d(3,4) unfolding LL by - assumption+
  from dl have "links ?h y (lastopt None l1) (Some x)" "links ?h x (Some y) (Some z)"
    "links ?h z (Some x) (first l2 None)"
    by (simp_all add: dll_append)
  then obtain nx ny nz where nx: "?h x = Some nx" "node_prev nx = Some y" "node_next nx = Some z"
    and ny: "?h y = Some ny" "node_next ny = Some x"
    and nz: "?h z = Some nz"
    by (auto dest!: linksD)
  have kx: "node_key nx = k" using d(5)[of x k v] nx(1) by simp
  have mk: "map_of (nodeMap s) k = Some x" unfolding inv_map_of[OF inv] by auto
  have ne: "x \<noteq> y" "x \<noteq> z" "y \<noteq> z" using di by auto
  have xh: "x \<noteq> h0" using d(3) by simp
  have uc: "use_count nx = 2" "0 < use_count ny" "0 < use_count nz"
    using d(8)[OF nx(1)] d(8)[OF ny(1)] d(8)[OF nz(1)] xh by (auto split: if_splits)
  have pos: "0 < brk s" using inv_brk[OF inv] by simp
  define h' where "h' = ?h(y \<mapsto> ny\<lparr>node_next := Some z\<rparr>, z \<mapsto> nz\<lparr>node_prev := Some y\<rparr>, x := None)"
  define s' where "s' = s\<lparr>nodeMap := AList.delete k (nodeMap s), store := h'\<rparr>"
  have res: "remove k s = Some s'"
    unfolding s'_def h'_def
    using mk nx ny nz ne uc pos by (intro remove_linked) simp_all
  have res2: "evictOldest s = Some s'" if "q1 = []"
  proof -
    have "y = h0" using L1 that by simp
    then show ?thesis
      unfolding s'_def h'_def kx[symmetric]
      using mk nx ny nz ne uc pos d(1) kx by (intro evictOldest_linked) simp_all
  qed
  have h'x: "h' x = None" and h'y: "h' y = Some (ny\<lparr>node_next := Some z\<rparr>)"
    and h'z: "h' z = Some (nz\<lparr>node_prev := Some y\<rparr>)"
    and h'o: "\<And>a. a \<notin> {x, y, z} \<Longrightarrow> h' a = ?h a"
    using ne by (auto simp: h'_def)
  have same: "\<exists>m. ?h a = Some m \<and> node_key m = node_key n \<and> node_value m = node_value n \<and>
      use_count m = use_count n" and "a \<noteq> x"
    if "h' a = Some n" for a n
    using that ny nz by (auto simp: h'_def split: if_splits)
  have same': "\<exists>n. h' a = Some n \<and> node_key m = node_key n \<and> node_value m = node_value n"
    if "?h a = Some m" "a \<noteq> x" for a m
    using that ny nz by (auto simp: h'_def split: if_splits)
  have xq: "x \<notin> fst ` set (q1 @ q2)" using d(3) by auto
  have kq: "k \<notin> (\<lambda>(a, k, v). k) ` set (q1 @ q2)" using d(11) by force
  have "cache_inv s' h0 t (q1 @ q2)"
  proof (rule cache_invI)
    show "dummyHead s' = Some h0" "dummyTail s' = Some t" using d(1,2) by (simp_all add: s'_def)
    show "distinct (h0 # map fst (q1 @ q2) @ [t])"
      unfolding LL' using di by auto
    have "dll h' None (l1 @ y # z # l2) None"
      using dl di ny(1) nz(1) h'o h'y h'z by (rule dll_remove) simp_all
    then show "dll (store s') None (h0 # map fst (q1 @ q2) @ [t]) None"
      unfolding LL' by (simp add: s'_def)
    show "\<exists>n. store s' a = Some n \<and> node_key n = k' \<and> node_value n = v'"
      if mem: "(a, k', v') \<in> set (q1 @ q2)" for a k' v'
    proof -
      have "a \<noteq> x" using mem xq by force
      moreover obtain m where "?h a = Some m" "node_key m = k'" "node_value m = v'"
        using d(5)[of a k' v'] mem by auto
      ultimately show ?thesis using same'[of a m] by (auto simp: s'_def)
    qed
    show "a \<in> set (h0 # map fst (q1 @ q2) @ [t])" if "store s' a = Some n" for a n
    proof -
      have "h' a = Some n" using that by (simp add: s'_def)
      from same[OF this] \<open>h' a = Some n\<close> h'x have "a \<noteq> x" "?h a \<noteq> None" by auto
      then show ?thesis using d(6)[of a] by auto
    qed
    show "a < brk s'" if "store s' a = Some n" for a n
    proof -
      have "h' a = Some n" using that by (simp add: s'_def)
      from same[OF this] show ?thesis using d(7)[of a] by (auto simp: s'_def)
    qed
    show "use_count n = (if a = h0 then 1 else 2)" if "store s' a = Some n" for a n
    proof -
      have "h' a = Some n" using that by (simp add: s'_def)
      from same[OF this] show ?thesis using d(8)[of a] by auto
    qed
    show "distinct (map fst (nodeMap s'))"
      using d(9) by (simp add: s'_def distinct_delete)
    have "set (AList.delete k (nodeMap s)) = {p \<in> set (nodeMap s). fst p \<noteq> k}"
      by (auto simp: AList.delete_eq)
    also have "\<dots> = (\<lambda>(a, k, v). (k, a)) ` set (q1 @ q2)"
      unfolding d(10) using kq by force
    finally show "set (nodeMap s') = (\<lambda>(a, k, v). (k, a)) ` set (q1 @ q2)"
      by (simp add: s'_def)
    show "distinct (map (\<lambda>(a, k, v). k) (q1 @ q2))"
      using d(11) by auto
    show "int (length (q1 @ q2)) \<le> max 0 (sint (capacity s'))"
      using d(12) by (simp add: s'_def)
  qed
  then show ?thesis using res res2 by (auto simp: s'_def)
qed

lemma update_inv:
  assumes inv: "cache_inv s h0 t (q1 @ (x, k, v0) # q2)"
  shows "\<exists>s'. updateExistingNode x v s = Some s' \<and> cache_inv s' h0 t (q1 @ (x, k, v) # q2) \<and>
    capacity s' = capacity s \<and> brk s' = brk s"
proof -
  let ?q = "q1 @ (x, k, v0) # q2"
  let ?q' = "q1 @ (x, k, v) # q2"
  let ?h = "store s"
  note d = cache_invD[OF inv]
  obtain nx where nx: "?h x = Some nx" "node_key nx = k" using d(5)[of x k v0] by auto
  define h' where "h' = ?h(x \<mapsto> nx\<lparr>node_value := v\<rparr>)"
  define s' where "s' = s\<lparr>store := h'\<rparr>"
  have res: "updateExistingNode x v s = Some s'"
    using nx by (simp add: updateExistingNode_def modify_def s'_def h'_def)
  have fst_eq: "map fst ?q' = map fst ?q" by simp
  have xq: "x \<notin> fst ` set (q1 @ q2)" using d(3) by auto
  have "cache_inv s' h0 t ?q'"
  proof (rule cache_invI)
    show "dummyHead s' = Some h0" "dummyTail s' = Some t" using d(1,2) by (simp_all add: s'_def)
    show "distinct (h0 # map fst ?q' @ [t])" using d(3) unfolding fst_eq .
    have "dll h' None (h0 # map fst ?q @ [t]) None = dll ?h None (h0 # map fst ?q @ [t]) None"
      using nx by (intro dll_frame) (simp add: h'_def)
    then show "dll (store s') None (h0 # map fst ?q' @ [t]) None"
      using d(4) unfolding fst_eq by (simp add: s'_def)
    show "\<exists>n. store s' a = Some n \<and> node_key n = k' \<and> node_value n = v'"
      if mem: "(a, k', v') \<in> set ?q'" for a k' v'
    proof (cases "a = x")
      case True
      then have "(a, k', v') \<notin> set (q1 @ q2)" using xq by force
      with mem have "k' = k" "v' = v" by auto
      then show ?thesis using True nx by (simp add: s'_def h'_def)
    next
      case False
      with mem have "(a, k', v') \<in> set ?q" by auto
      from d(5)[OF this] False show ?thesis by (simp add: s'_def h'_def)
    qed
    have same: "\<exists>m. ?h a = Some m \<and> use_count m = use_count n" if "store s' a = Some n" for a n
      using that nx by (auto simp: s'_def h'_def split: if_splits)
    show "a \<in> set (h0 # map fst ?q' @ [t])" if "store s' a = Some n" for a n
      using same[OF that] d(6)[of a] unfolding fst_eq by auto
    show "a < brk s'" if "store s' a = Some n" for a n
      using same[OF that] d(7)[of a] by (auto simp: s'_def)
    show "use_count n = (if a = h0 then 1 else 2)" if "store s' a = Some n" for a n
      using same[OF that] d(8)[of a] by auto
    show "distinct (map fst (nodeMap s'))" using d(9) by (simp add: s'_def)
    show "set (nodeMap s') = (\<lambda>(a, k, v). (k, a)) ` set ?q'"
      using d(10) by (simp add: s'_def)
    show "distinct (map (\<lambda>(a, k, v). k) ?q')" using d(11) by simp
    show "int (length ?q') \<le> max 0 (sint (capacity s'))" using d(12) by (simp add: s'_def)
  qed
  then show ?thesis using res by (auto simp: s'_def)
qed

lemma fifo_put_update:
  assumes "distinct (map fst (es1 @ (k, v0) # es2))"
  shows "fifo_put C k v (es1 @ (k, v0) # es2) =
    (if C \<le> 0 then es1 @ (k, v0) # es2 else es1 @ (k, v) # es2)"
proof -
  have "map (\<lambda>(k', v'). if k' = k then (k', v) else (k', v')) es = es" if "k \<notin> fst ` set es" for es
    using that by (induction es) auto
  then show ?thesis using assms by (auto simp: fifo_put_def)
qed

lemma fifo_remove_absent: "k \<notin> fst ` set es \<Longrightarrow> fifo_remove k es = es"
  by (induction es) (auto simp: fifo_remove_def)

lemma fifo_remove_present:
  assumes "distinct (map fst (es1 @ (k, v0) # es2))"
  shows "fifo_remove k (es1 @ (k, v0) # es2) = es1 @ es2"
  using assms fifo_remove_absent[of k es1] fifo_remove_absent[of k es2]
  by (auto simp: fifo_remove_def)

lemma keys_snd: "map fst (map snd q) = map (\<lambda>(a, k, v). k) q"
  by (induction q) auto

lemma inv_entries:
  assumes "cache_inv s h0 t q"
  shows "distinct (map fst (map snd q))"
    and "(map_of (nodeMap s) k = None) = (k \<notin> fst ` set (map snd q))"
proof -
  show "distinct (map fst (map snd q))"
    unfolding keys_snd by (rule cache_invD(11)[OF assms])
  have "fst ` set (map snd q) = set (map fst (map snd q))" by (simp only: set_map)
  also have "\<dots> = fst ` set (nodeMap s)"
    unfolding keys_snd inv_keys[OF assms] ..
  finally show "(map_of (nodeMap s) k = None) = (k \<notin> fst ` set (map snd q))"
    by (simp only: map_of_eq_None_iff)
qed

lemma put_new:
  assumes inv: "cache_inv s h0 t q" and pos: "0 < sint (capacity s)"
    and None: "map_of (nodeMap s) k = None"
  shows "put k v s = (if sint (capacity s) \<le> int (length q) then evictOldest s else Some s)
        \<bind> appendNew k v"
proof -
  note d = cache_invD[OF inv]
  have len: "length (nodeMap s) = length q" by (rule inv_length[OF inv])
  have bound: "int (length q) \<le> sint (capacity s)" using d(12) pos by simp
  have cmp: "((scast (capacity s) :: 64 word) \<le> word_of_nat (length (nodeMap s))) =
      (sint (capacity s) \<le> int (length q))"
    unfolding len using pos bound by (intro size_cmp) simp_all
  show ?thesis using pos None by (simp add: put_def addNewNode_split cmp)
qed

lemma put_new_full:
  assumes inv: "cache_inv s h0 t q" and pos: "0 < sint (capacity s)"
    and None: "map_of (nodeMap s) k = None"
    and full: "sint (capacity s) \<le> int (length q)"
  shows "\<exists>x kx vx q2 s1 s' b. q = (x, kx, vx) # q2 \<and> evictOldest s = Some s1 \<and>
    cache_inv s1 h0 t q2 \<and> capacity s1 = capacity s \<and> put k v s = Some s' \<and>
    cache_inv s' h0 t (q2 @ [(b, k, v)]) \<and> capacity s' = capacity s"
proof -
  note d = cache_invD[OF inv]
  have knew: "k \<notin> fst ` set (map snd q)" using None unfolding inv_entries(2)[OF inv] .
  have bound: "int (length q) \<le> sint (capacity s)" using d(12) pos by simp
  obtain x kx vx q2 where q: "q = (x, kx, vx) # q2" using pos full by (cases q) auto
  from unlink_inv[of s h0 t "[]" x kx vx q2] inv q obtain s1 where
    s1: "evictOldest s = Some s1" "cache_inv s1 h0 t q2" "capacity s1 = capacity s"
    by auto
  have "k \<notin> fst ` set (map snd q2)" using knew unfolding q by simp
  then have "map_of (nodeMap s1) k = None" unfolding inv_entries(2)[OF s1(2)] .
  moreover have "int (length q2) < sint (capacity s1)" using bound s1(3) q by simp
  ultimately obtain s' where s': "appendNew k v s1 = Some s'"
    "cache_inv s' h0 t (q2 @ [(brk s1, k, v)])" "capacity s' = capacity s1"
    using appendNew_inv[OF s1(2), of k v] by auto
  have "put k v s = Some s'"
    unfolding put_new[OF inv pos None] using full s1 s' by simp
  then show ?thesis using q s1 s' by auto
qed

lemma put_new_room:
  assumes inv: "cache_inv s h0 t q" and pos: "0 < sint (capacity s)"
    and None: "map_of (nodeMap s) k = None"
    and room: "int (length q) < sint (capacity s)"
  shows "\<exists>s'. put k v s = Some s' \<and> cache_inv s' h0 t (q @ [(brk s, k, v)]) \<and>
    capacity s' = capacity s"
proof -
  obtain s' where s': "appendNew k v s = Some s'"
    "cache_inv s' h0 t (q @ [(brk s, k, v)])" "capacity s' = capacity s"
    using appendNew_inv[OF inv None room, of v] by auto
  have "put k v s = Some s'"
    unfolding put_new[OF inv pos None] using room s' by simp
  then show ?thesis using s' by auto
qed

lemma put_present:
  assumes inv: "cache_inv s h0 t q" and pos: "0 < sint (capacity s)"
    and Some: "map_of (nodeMap s) k = Some x"
  shows "\<exists>q1 q2 v0 s'. q = q1 @ (x, k, v0) # q2 \<and> put k v s = Some s' \<and>
    cache_inv s' h0 t (q1 @ (x, k, v) # q2) \<and> capacity s' = capacity s"
proof -
  from Some obtain v0 where "(x, k, v0) \<in> set q" unfolding inv_map_of[OF inv] by auto
  then obtain q1 q2 where q: "q = q1 @ (x, k, v0) # q2" by (auto dest: split_list)
  from update_inv[OF inv[unfolded q], of v] obtain s' where
    s': "updateExistingNode x v s = Some s'" "cache_inv s' h0 t (q1 @ (x, k, v) # q2)"
    "capacity s' = capacity s" by auto
  then show ?thesis using q Some pos by (auto simp: put_def)
qed

lemma put_inv:
  assumes inv: "cache_inv s h0 t q"
  shows "\<exists>s' q'. put k v s = Some s' \<and> cache_inv s' h0 t q' \<and> capacity s' = capacity s \<and>
    map snd q' = fifo_put (sint (capacity s)) k v (map snd q)"
proof (cases "sint (capacity s) \<le> 0")
  case True
  then show ?thesis using inv by (auto simp: put_def fifo_put_def)
next
  case False
  then have pos: "0 < sint (capacity s)" by simp
  have dk: "distinct (map fst (map snd q))" by (rule inv_entries[OF inv])
  show ?thesis
  proof (cases "map_of (nodeMap s) k")
    case (Some x)
    from put_present[OF inv pos Some, of v] obtain q1 q2 v0 s' where
      1: "q = q1 @ (x, k, v0) # q2" "put k v s = Some s'"
      "cache_inv s' h0 t (q1 @ (x, k, v) # q2)" "capacity s' = capacity s" by auto
    have "fifo_put (sint (capacity s)) k v (map snd q) = map snd (q1 @ (x, k, v) # q2)"
      using dk pos unfolding 1(1) by (simp add: fifo_put_update)
    then show ?thesis using 1 by auto
  next
    case None
    then have knew: "k \<notin> fst ` set (map snd q)" unfolding inv_entries(2)[OF inv] .
    show ?thesis
    proof (cases "sint (capacity s) \<le> int (length q)")
      case full: True
      from put_new_full[OF inv pos None full, of v] obtain x kx vx q2 s' b where
        1: "q = (x, kx, vx) # q2" "put k v s = Some s'"
        "cache_inv s' h0 t (q2 @ [(b, k, v)])" "capacity s' = capacity s"
        by (elim exE conjE) (rule that)
      have "fifo_put (sint (capacity s)) k v (map snd q) = map snd (q2 @ [(b, k, v)])"
        using knew pos full by (simp add: fifo_put_def 1(1))
      then show ?thesis using 1 by auto
    next
      case False
      then have room: "int (length q) < sint (capacity s)" by simp
      from put_new_room[OF inv pos None room, of v] obtain s' where
        1: "put k v s = Some s'" "cache_inv s' h0 t (q @ [(brk s, k, v)])"
        "capacity s' = capacity s" by auto
      have "fifo_put (sint (capacity s)) k v (map snd q) = map snd (q @ [(brk s, k, v)])"
        using knew pos room by (simp add: fifo_put_def)
      then show ?thesis using 1 by auto
    qed
  qed
qed

lemma remove_inv:
  assumes inv: "cache_inv s h0 t q"
  shows "\<exists>s' q'. remove k s = Some s' \<and> cache_inv s' h0 t q' \<and> capacity s' = capacity s \<and>
    map snd q' = fifo_remove k (map snd q)"
proof (cases "map_of (nodeMap s) k")
  case None
  then have "k \<notin> fst ` set (map snd q)"
    unfolding inv_entries(2)[OF inv] .
  then show ?thesis using None inv by (auto simp: remove_def fifo_remove_absent)
next
  case (Some x)
  note d = cache_invD[OF inv]
  have dk: "distinct (map fst (map snd q))" by (rule inv_entries[OF inv])
  from Some obtain v0 where "(x, k, v0) \<in> set q" unfolding inv_map_of[OF inv] by auto
  then obtain q1 q2 where q: "q = q1 @ (x, k, v0) # q2" by (auto dest: split_list)
  from unlink_inv[OF inv[unfolded q]] obtain s' where
    s': "remove k s = Some s'" "cache_inv s' h0 t (q1 @ q2)" "capacity s' = capacity s" by auto
  have "fifo_remove k (map snd q) = map snd (q1 @ q2)"
    using dk unfolding q by (simp add: fifo_remove_present)
  then show ?thesis using s' by auto
qed

lemma get_inv:
  assumes inv: "cache_inv s h0 t q"
  shows "get k v s =
    Some (case map_of (map snd q) k of None \<Rightarrow> (False, v, s) | Some w \<Rightarrow> (True, w, s))"
proof (cases "map_of (nodeMap s) k")
  case None
  then have "k \<notin> fst ` set (map snd q)"
    unfolding inv_entries(2)[OF inv] .
  then have "map_of (map snd q) k = None" by (simp add: map_of_eq_None_iff)
  then show ?thesis using None by (simp add: get_def)
next
  case (Some x)
  note d = cache_invD[OF inv]
  have dk: "distinct (map fst (map snd q))" by (rule inv_entries[OF inv])
  from Some obtain w where m: "(x, k, w) \<in> set q" unfolding inv_map_of[OF inv] by auto
  then have "(k, w) \<in> set (map snd q)" by force
  then have "map_of (map snd q) k = Some w" using dk by simp
  moreover obtain n where "store s x = Some n" "node_value n = w" using d(5)[OF m] by auto
  ultimately show ?thesis using Some by (simp add: get_def)
qed

lemma init_inv:
  "\<exists>s. KFifoCache dk dv c = Some s \<and> cache_inv s 0 1 [] \<and> capacity s = c"
proof -
  have "cache_inv s 0 (Suc 0) []" if "KFifoCache dk dv c = Some s" for s :: "('a, 'b) KFifoCache"
    using that
    by (auto simp: KFifoCache_def initializeQueue_def make_shared_def prim_defs cache_inv_def
        links_def split: if_splits)
  moreover have "\<exists>s. KFifoCache dk dv c = Some s \<and> capacity s = c"
    by (simp add: KFifoCache_def initializeQueue_def make_shared_def prim_defs)
  ultimately show ?thesis by auto
qed

section \<open>Observations of a well-formed cache\<close>

lemma walk_dll:
  assumes "dll h p (map fst q @ [t]) n" "distinct (map fst q @ [t])"
    and "\<And>a k v. (a, k, v) \<in> set q \<Longrightarrow> \<exists>x. h a = Some x \<and> node_key x = k \<and> node_value x = v"
    and "length q < fuel" "first (map fst q @ [t]) n = Some a"
  shows "walk fuel h a t = Some q"
  using assms
proof (induction q arbitrary: p fuel a)
  case Nil
  then show ?case by (cases fuel) simp_all
next
  case (Cons e q)
  obtain x k v where e: "e = (x, k, v)" by (cases e)
  obtain f where f: "fuel = Suc f" using Cons.prems(4) by (cases fuel) simp_all
  have a: "a = x" "x \<noteq> t" using Cons.prems(2,5) by (simp_all add: e)
  from Cons.prems(1) have l: "links h x p (first (map fst q @ [t]) n)"
    and r: "dll h (Some x) (map fst q @ [t]) n" by (simp_all add: e)
  obtain b where b: "first (map fst q @ [t]) n = Some b" by (cases q) auto
  obtain nx where nx: "h x = Some nx" "node_next nx = Some b"
    using linksD[OF l] b by auto
  have kv: "node_key nx = k" "node_value nx = v" using Cons.prems(3)[of x k v] nx by (simp_all add: e)
  have "walk f h b t = Some q"
    using r Cons.prems(2,3,4) b f by (intro Cons.IH[of "Some x"]) (auto simp: e)
  then show ?case using a nx kv by (simp add: f e)
qed

lemma walk_back_dll:
  assumes "dll h p (h0 # map fst q) n" "distinct (h0 # map fst q)"
    and "\<And>a k v. (a, k, v) \<in> set q \<Longrightarrow> \<exists>x. h a = Some x \<and> node_key x = k \<and> node_value x = v"
    and "length q < fuel"
  shows "walk_back fuel h (last (h0 # map fst q)) h0 = Some (rev q)"
  using assms
proof (induction q arbitrary: n fuel rule: rev_induct)
  case Nil
  then show ?case by (cases fuel) simp_all
next
  case (snoc e q)
  obtain x k v where e: "e = (x, k, v)" by (cases e)
  obtain f where f: "fuel = Suc f" using snoc.prems(4) by (cases fuel) simp_all
  have x: "x \<noteq> h0" using snoc.prems(2) by (simp add: e)
  have eq: "h0 # map fst (q @ [e]) = (h0 # map fst q) @ [x]" by (simp add: e)
  from snoc.prems(1) have l: "links h x (Some (last (h0 # map fst q))) n"
    and r: "dll h p (h0 # map fst q) (Some x)"
    unfolding eq dll_append by (simp_all add: lastopt_def)
  obtain nx where nx: "h x = Some nx" "node_prev nx = Some (last (h0 # map fst q))"
    using linksD[OF l] by auto
  have kv: "node_key nx = k" "node_value nx = v" using snoc.prems(3)[of x k v] nx by (simp_all add: e)
  have "walk_back f h (last (h0 # map fst q)) h0 = Some (rev q)"
    using r snoc.prems(2,3,4) f by (intro snoc.IH[of "Some x"]) (auto simp: e)
  then show ?case using x nx kv unfolding eq by (simp add: f e)
qed

lemma distinct_length_le:
  assumes "distinct (l :: nat list)" "\<And>a. a \<in> set l \<Longrightarrow> a < n"
  shows "length l \<le> n"
proof -
  have "set l \<subseteq> {..<n}" using assms(2) by auto
  then have "card (set l) \<le> card {..<n}" by (intro card_mono) simp_all
  then show ?thesis using assms(1) by (simp add: distinct_card)
qed

lemma inv_fuel:
  assumes inv: "cache_inv s h0 t q"
  shows "length q + 2 \<le> brk s"
proof -
  note d = cache_invD[OF inv]
  have "a < brk s" if "a \<in> set (h0 # map fst q @ [t])" for a
    using inv_live[OF inv that] d(7) by auto
  from distinct_length_le[OF d(3) this] show ?thesis by simp
qed

lemma inv_linked:
  assumes inv: "cache_inv s h0 t q"
  shows "linked s = Some q"
proof -
  note d = cache_invD[OF inv]
  from d(4) have l: "links (store s) h0 None (first (map fst q @ [t]) None)"
    and r: "dll (store s) (Some h0) (map fst q @ [t]) None" by simp_all
  obtain a where a: "first (map fst q @ [t]) None = Some a" by (cases q) auto
  obtain hn where hn: "store s h0 = Some hn" "node_next hn = Some a"
    using linksD[OF l] a by auto
  have "walk (brk s) (store s) a t = Some q"
    using r d(3) d(5) inv_fuel[OF inv] a by (intro walk_dll[of _ "Some h0" _ _ None]) auto
  then show ?thesis using d(1,2) hn by (simp add: linked_def)
qed

lemma inv_linked_back:
  assumes inv: "cache_inv s h0 t q"
  shows "linked_back s = Some (rev q)"
proof -
  note d = cache_invD[OF inv]
  have eq: "h0 # map fst q @ [t] = (h0 # map fst q) @ [t]" by simp
  from d(4) have l: "links (store s) t (Some (last (h0 # map fst q))) None"
    and r: "dll (store s) None (h0 # map fst q) (Some t)"
    unfolding eq dll_append by (simp_all add: lastopt_def)
  obtain tn where tn: "store s t = Some tn" "node_prev tn = Some (last (h0 # map fst q))"
    using linksD[OF l] by auto
  have "walk_back (brk s) (store s) (last (h0 # map fst q)) h0 = Some (rev q)"
    using r d(3) d(5) inv_fuel[OF inv] by (intro walk_back_dll[of _ None _ _ "Some t"]) auto
  then show ?thesis using d(1,2) tn by (simp add: linked_back_def)
qed

lemma inv_queue: "cache_inv s h0 t q \<Longrightarrow> queue s = Some (map snd q)"
  by (simp add: queue_def inv_linked)

lemma inv_index_keys:
  assumes "cache_inv s h0 t q" shows "index_keys s = fst ` set (map snd q)"
proof -
  have "fst ` set (map snd q) = set (map fst (map snd q))" by (simp only: set_map)
  then show ?thesis unfolding index_keys_def keys_snd inv_keys[OF assms] by simp
qed

lemma inv_entry_count: "cache_inv s h0 t q \<Longrightarrow> entry_count s = length (map snd q)"
  by (simp add: entry_count_def inv_length)

lemma inv_index_agrees:
  assumes inv: "cache_inv s h0 t q" shows "index_agrees s"
  using cache_invD(9,10)[OF inv]
  by (simp add: index_agrees_def inv_linked[OF inv] inv_linked_back[OF inv])

lemma exec_inv:
  assumes inv: "cache_inv s h0 t q"
  shows "\<exists>s' q'. exec c s = Some s' \<and> cache_inv s' h0 t q' \<and> capacity s' = capacity s \<and>
    map snd q' = fifo_exec (sint (capacity s)) c (map snd q)"
proof (cases c)
  case (Put k v)
  then show ?thesis using put_inv[OF inv, of k v] by simp
next
  case (Get k v)
  then show ?thesis using get_inv[OF inv, of k v] inv by (auto split: option.splits)
next
  case (Remove k)
  then show ?thesis using remove_inv[OF inv, of k] by simp
qed

lemma run_inv:
  assumes inv: "cache_inv s h0 t q"
  shows "\<exists>s' q'. run cs s = Some s' \<and> cache_inv s' h0 t q' \<and> capacity s' = capacity s \<and>
    map snd q' = fifo_run (sint (capacity s)) cs (map snd q)"
  using inv
proof (induction cs arbitrary: s q)
  case Nil
  then show ?case by (auto simp: fifo_run_def)
next
  case (Cons c cs)
  from exec_inv[OF Cons.prems, of c] obtain s1 q1 where
    1: "exec c s = Some s1" "cache_inv s1 h0 t q1" "capacity s1 = capacity s"
    "map snd q1 = fifo_exec (sint (capacity s)) c (map snd q)" by auto
  from Cons.IH[OF 1(2)] obtain s' q' where
    2: "run cs s1 = Some s'" "cache_inv s' h0 t q'" "capacity s' = capacity s1"
    "map snd q' = fifo_run (sint (capacity s1)) cs (map snd q1)" by auto
  show ?case using 1 2 by (auto simp: fifo_run_def)
qed

text \<open>Every state reached from the constructor is well formed and refines the list model.\<close>

lemma reachable:
  "\<exists>s q. KFifoCache dk dv c \<bind> run cs = Some s \<and> cache_inv s 0 1 q \<and> capacity s = c \<and>
     map snd q = fifo_run (sint c) cs []"
proof -
  obtain s0 where s0: "KFifoCache dk dv c = Some s0" "cache_inv s0 0 1 []" "capacity s0 = c"
    using init_inv[of dk dv c] by auto
  from run_inv[OF s0(2), of cs] s0 show ?thesis by auto
qed

section \<open>Reachable states and the list model\<close>

lemma reachable_obs:
  "\<exists>s q. KFifoCache dk dv c \<bind> run cs = Some s \<and> cache_inv s 0 1 q \<and> capacity s = c \<and>
     map snd q = fifo_run (sint c) cs [] \<and>
     queue s = Some (fifo_run (sint c) cs []) \<and>
     index_keys s = fst ` set (fifo_run (sint c) cs []) \<and>
     entry_count s = length (fifo_run (sint c) cs []) \<and> index_agrees s"
proof -
  obtain s q where 1: "KFifoCache dk dv c \<bind> run cs = Some s" "cache_inv s 0 1 q"
    "capacity s = c" "map snd q = fifo_run (sint c) cs []"
    using reachable[of dk dv c cs] by blast
  show ?thesis
    using 1 inv_queue[OF 1(2)] inv_index_keys[OF 1(2)] inv_entry_count[OF 1(2)]
      inv_index_agrees[OF 1(2)]
    by (intro exI[of _ s] exI[of _ q]) simp
qed

lemma run_append: "run (cs @ ds) s = run cs s \<bind> run ds"
proof (induction cs arbitrary: s)
  case Nil
  show ?case by simp
next
  case (Cons c cs)
  show ?case by (cases "exec c s") (simp_all add: Cons)
qed

lemma fifo_run_append: "fifo_run C (cs @ ds) es = fifo_run C ds (fifo_run C cs es)"
  by (simp add: fifo_run_def)

lemma empty_inert:
  assumes "cache_inv s h0 t []" "sint (capacity s) \<le> 0"
  shows "run cs s = Some s"
proof (induction cs)
  case Nil
  show ?case by simp
next
  case (Cons c cs)
  have "map_of (nodeMap s) k = None" for k
    unfolding inv_entries(2)[OF assms(1)] by simp
  then have "exec c s = Some s"
    using assms(2) by (cases c) (simp_all add: put_def get_def remove_def)
  then show ?case using Cons by simp
qed

lemma fifo_run_snoc: "fifo_run C (cs @ [c]) es = fifo_exec C c (fifo_run C cs es)"
  by (simp add: fifo_run_def)

lemma fifo_run_puts:
  assumes "distinct (map fst kvs)" "1 \<le> C"
  shows "fifo_run C (map (\<lambda>(k, v). Put k v) kvs) [] = drop (length kvs - nat C) kvs"
  using assms(1)
proof (induction kvs rule: rev_induct)
  case Nil
  show ?case by (simp add: fifo_run_def)
next
  case (snoc e kvs)
  obtain k v where e: "e = (k, v)" by (cases e)
  let ?d = "drop (length kvs - nat C) kvs"
  have IH: "fifo_run C (map (\<lambda>(k, v). Put k v) kvs) [] = ?d" using snoc by simp
  have "set ?d \<subseteq> set kvs" by (rule set_drop_subset)
  then have knew: "k \<notin> fst ` set ?d" using snoc.prems by (auto simp: e)
  have len: "length ?d = min (length kvs) (nat C)" by simp
  have "fifo_run C (map (\<lambda>(k, v). Put k v) (kvs @ [e])) [] = fifo_put C k v ?d"
    by (simp add: fifo_run_snoc IH e)
  also have "\<dots> = drop (length (kvs @ [e]) - nat C) (kvs @ [e])"
  proof (cases "nat C \<le> length kvs")
    case True
    then have "C \<le> int (length ?d)" using assms(2) by simp
    then have "fifo_put C k v ?d = tl ?d @ [(k, v)]"
      using knew assms(2) by (simp add: fifo_put_def)
    also have "tl ?d = drop (Suc (length kvs) - nat C) kvs"
      using True by (simp add: tl_drop Suc_diff_le drop_Suc)
    finally show ?thesis using True assms(2) by (simp add: e)
  next
    case False
    then have z: "?d = kvs" by simp
    have nf: "\<not> C \<le> int (length kvs)" using False by linarith
    have "fifo_put C k v kvs = kvs @ [(k, v)]"
      using knew[unfolded z] assms(2) nf by (simp add: fifo_put_def)
    then show ?thesis unfolding z using False by (simp add: e)
  qed
  finally show ?case .
qed

lemma reachable_unique:
  assumes "KFifoCache dk dv c \<bind> run cs = Some s"
  shows "\<exists>q. cache_inv s 0 1 q \<and> capacity s = c \<and> map snd q = fifo_run (sint c) cs []"
  using reachable[of dk dv c cs] assms by auto

lemma fifo_put_evicts: "fst ` set es - fst ` set (fifo_put C k v es) \<subseteq> {fst (hd es)}"
proof -
  have "fst ` set (map (\<lambda>(k', v'). if k' = k then (k', v) else (k', v')) es) = fst ` set es"
    by (induction es) auto
  then show ?thesis by (cases es) (auto simp: fifo_put_def)
qed

lemma map_update_keys:
  "map fst (map (\<lambda>(k', v'). if k' = k then (k', v) else (k', v')) es) = map fst es"
  by (induction es) auto

lemma map_of_update:
  "k \<in> fst ` set es \<Longrightarrow>
   map_of (map (\<lambda>(k', v'). if k' = k then (k', v) else (k', v')) es) k = Some v"
  by (induction es) auto

lemma fifo_put_lookup:
  assumes "1 \<le> C"
  shows "map_of (fifo_put C k v es) k = Some v"
proof (cases "k \<in> fst ` set es")
  case True
  then show ?thesis using assms by (simp add: fifo_put_def map_of_update)
next
  case False
  define r where "r = (if C \<le> int (length es) then tl es else es)"
  have "set r \<subseteq> set es" unfolding r_def by (cases es) auto
  then have "k \<notin> fst ` set r" using False by (meson image_mono subsetD)
  then have "map_of r k = None" by (simp only: map_of_eq_None_iff not_False_eq_True)
  then have "map_of (r @ [(k, v)]) k = Some v" by (simp add: map_add_def)
  moreover have "fifo_put C k v es = r @ [(k, v)]"
    using False assms by (simp add: fifo_put_def r_def)
  ultimately show ?thesis by simp
qed

section \<open>The sharded cache\<close>

lemma make_slices_inv:
  "\<exists>l. make_slices n dk dv c = Some l \<and> length l = n \<and>
     (\<forall>s \<in> set l. capacity s = c \<and> (\<exists>q. cache_inv s 0 1 q))"
proof (induction n)
  case 0
  show ?case by simp
next
  case (Suc n)
  obtain s where s: "KFifoCache dk dv c = Some s" "cache_inv s 0 1 []" "capacity s = c"
    using init_inv[of dk dv c] by blast
  from Suc obtain l where l: "make_slices n dk dv c = Some l" "length l = n"
    "\<forall>s \<in> set l. capacity s = c \<and> (\<exists>q. cache_inv s 0 1 q)" by blast
  have "make_slices (Suc n) dk dv c = Some (s # l)" using s(1) l(1) by simp
  moreover have "\<forall>x \<in> set (s # l). capacity x = c \<and> (\<exists>q. cache_inv x 0 1 q)"
    using s(2,3) l(3) by auto
  ultimately show ?case using l(2) by auto
qed

lemma constructor_inv:
  assumes "KHashFifoCache hw dk dv T N = Some h"
  shows "\<exists>c. hash_inv h c" and "sliceNum h = (if 0 < sint N then N else hw)"
proof -
  let ?n = "if 0 < sint N then N else hw"
  let ?z = "\<lceil>round_double (round_double (of_int (uint T)) / of_int (sint ?n))\<rceil>"
  from assms have n0: "?n \<noteq> 0"
    by (auto simp: KHashFifoCache_def Let_def split: if_splits)
  obtain l where l: "make_slices (nat (sint ?n)) dk dv (word_of_int ?z) = Some l"
    "length l = nat (sint ?n)"
    "\<forall>s \<in> set l. capacity s = word_of_int ?z \<and> (\<exists>q. cache_inv s 0 1 q)"
    using make_slices_inv[of "nat (sint ?n)" dk dv "word_of_int ?z"] by blast
  from assms have h: "h = \<lparr>total_capacity = T, sliceNum = ?n, fifoSliceCaches = l\<rparr>"
    unfolding KHashFifoCache_def Let_def using l(1) n0
    by (simp split: if_splits)
  show "sliceNum h = ?n" using h by simp
  have "hash_inv h (word_of_int ?z)"
    unfolding hash_inv_def using n0 l(2,3) by (simp add: h)
  then show "\<exists>c. hash_inv h c" ..
qed

lemma slice_index_bound:
  assumes "0 < sint (n :: 32 word)"
  shows "unat (x mod (scast n :: 64 word)) = unat x mod nat (sint n)"
    and "unat (x mod (scast n :: 64 word)) < nat (sint n)"
proof -
  have "sint n < 2 ^ (LENGTH(32) - 1)" by (rule sint_lt)
  then have b: "sint n < 2 ^ 64" by simp
  have "uint (scast n :: 64 word) = sint n"
    unfolding scast_eq uint_word_of_int_eq
    using assms b by (intro take_bit_int_eq_self) simp_all
  then have u: "unat (scast n :: 64 word) = nat (sint n)" by (simp add: unat_eq_nat_uint)
  show "unat (x mod (scast n :: 64 word)) = unat x mod nat (sint n)"
    by (simp add: unat_mod u)
  then show "unat (x mod (scast n :: 64 word)) < nat (sint n)" using assms by simp
qed

lemma hash_put_inv:
  assumes inv: "hash_inv h c" and pos: "0 < sint (sliceNum h)"
  shows "\<exists>i s' q'. i = unat (Hash hashFunc k mod scast (sliceNum h)) \<and>
    i < length (fifoSliceCaches h) \<and> put k v (fifoSliceCaches h ! i) = Some s' \<and>
    cache_inv s' 0 1 q' \<and> capacity s' = c \<and>
    hash_put hashFunc k v h = Some (h\<lparr>fifoSliceCaches := (fifoSliceCaches h)[i := s']\<rparr>) \<and>
    hash_inv (h\<lparr>fifoSliceCaches := (fifoSliceCaches h)[i := s']\<rparr>) c \<and>
    (1 \<le> sint c \<longrightarrow> (\<forall>w. get k w s' = Some (True, v, s')))"
proof -
  let ?i = "unat (Hash hashFunc k mod scast (sliceNum h))"
  let ?l = "fifoSliceCaches h"
  note d = inv[unfolded hash_inv_def]
  have i: "?i < length ?l" using slice_index_bound(2)[OF pos] d by simp
  then have mem: "?l ! ?i \<in> set ?l" by simp
  then obtain q where q: "cache_inv (?l ! ?i) 0 1 q" "capacity (?l ! ?i) = c" using d by blast
  obtain s' q' where s': "put k v (?l ! ?i) = Some s'" "cache_inv s' 0 1 q'"
    "capacity s' = capacity (?l ! ?i)"
    "map snd q' = fifo_put (sint (capacity (?l ! ?i))) k v (map snd q)"
    using put_inv[OF q(1), of k v] by blast
  have n0: "sliceNum h \<noteq> 0" using d by simp
  have p: "hash_put hashFunc k v h = Some (h\<lparr>fifoSliceCaches := ?l[?i := s']\<rparr>)"
    using i s'(1) n0 by (simp add: hash_put_def Let_def)
  have "\<forall>s \<in> set (?l[?i := s']). capacity s = c \<and> (\<exists>q. cache_inv s 0 1 q)"
  proof
    fix s assume "s \<in> set (?l[?i := s'])"
    then have "s = s' \<or> s \<in> set ?l" using set_update_subset_insert[of ?l ?i s'] by auto
    then show "capacity s = c \<and> (\<exists>q. cache_inv s 0 1 q)"
      using s'(2,3) q(2) d by auto
  qed
  then have hi: "hash_inv (h\<lparr>fifoSliceCaches := ?l[?i := s']\<rparr>) c"
    unfolding hash_inv_def using d by simp
  have g: "get k w s' = Some (True, v, s')" if "1 \<le> sint c" for w
  proof -
    have "map_of (map snd q') k = Some v"
      unfolding s'(4) q(2) using that by (rule fifo_put_lookup)
    then show ?thesis unfolding get_inv[OF s'(2)] by simp
  qed
  show ?thesis using i s'(1,2,3) q(2) p hi g by blast
qed

lemma hash_get_inv:
  assumes inv: "hash_inv h c" and pos: "0 < sint (sliceNum h)"
  shows "\<exists>i b x. i = unat (Hash hashFunc k mod scast (sliceNum h)) \<and>
    i < length (fifoSliceCaches h) \<and>
    get k w (fifoSliceCaches h ! i) = Some (b, x, fifoSliceCaches h ! i) \<and>
    hash_get hashFunc k w h = Some (b, x, h)"
proof -
  let ?i = "unat (Hash hashFunc k mod scast (sliceNum h))"
  let ?l = "fifoSliceCaches h"
  note d = inv[unfolded hash_inv_def]
  have i: "?i < length ?l" using slice_index_bound(2)[OF pos] d by simp
  then have mem: "?l ! ?i \<in> set ?l" by simp
  then obtain q where q: "cache_inv (?l ! ?i) 0 1 q" using d by blast
  obtain b x where g: "get k w (?l ! ?i) = Some (b, x, ?l ! ?i)"
    using get_inv[OF q, of k w] by (cases "map_of (map snd q) k") auto
  have n0: "sliceNum h \<noteq> 0" using d by simp
  have "hash_get hashFunc k w h = Some (b, x, h)"
    using i g n0 by (simp add: hash_get_def Let_def)
  then show ?thesis using i g by blast
qed

lemma hash_exec_inv:
  assumes "hash_inv h c" "hash_exec hashFunc cl h = Some h'"
  shows "hash_inv h' c \<and> sliceNum h' = sliceNum h"
proof (cases "0 < sint (sliceNum h)")
  case True
  show ?thesis
  proof (cases cl)
    case (HashPut k v)
    then show ?thesis using hash_put_inv[OF assms(1) True, of hashFunc k v] assms(2) by auto
  next
    case (HashGet k w)
    then show ?thesis using hash_get_inv[OF assms(1) True, of hashFunc k w] assms by auto
  qed
next
  case False
  then have "fifoSliceCaches h = []" using assms(1) by (simp add: hash_inv_def)
  then have "hash_exec hashFunc cl h = None"
    by (cases cl) (simp_all add: hash_put_def hash_get_def Let_def)
  then show ?thesis using assms(2) by simp
qed

lemma hash_run_inv:
  assumes "hash_inv h c" "hash_run hashFunc cs h = Some h'"
  shows "hash_inv h' c \<and> sliceNum h' = sliceNum h"
  using assms
proof (induction cs arbitrary: h)
  case Nil
  then show ?case by simp
next
  case (Cons cl cs)
  from Cons.prems(2) obtain h1 where h1: "hash_exec hashFunc cl h = Some h1"
    "hash_run hashFunc cs h1 = Some h'" by (cases "hash_exec hashFunc cl h") simp_all
  from hash_exec_inv[OF Cons.prems(1) h1(1)] Cons.IH[OF _ h1(2)] show ?case by simp
qed

section \<open>The shard size in double precision\<close>

lemma pow2_pos: "0 < pow2 e"
  by (simp add: pow2_def)

lemma pow2_low: "e \<le> 52 \<Longrightarrow> pow2 (e - 52) = 1 / 2 ^ nat (52 - e)"
  by (cases "e = 52") (simp_all add: pow2_def)

lemma ilog2_le:
  assumes "0 < q" "q < 2 ^ 53"
  shows "ilog2 q \<le> 52"
proof (cases "1 \<le> q")
  case True
  have "\<lfloor>q\<rfloor> < 2 ^ 53" using assms(2) by (simp add: floor_less_iff)
  then have "bitlen \<lfloor>q\<rfloor> \<le> 53"
    using bitlen_le_iff_power[of "\<lfloor>q\<rfloor>" 53] by simp
  then show ?thesis using True by (simp add: ilog2_def)
next
  case False
  then show ?thesis using bitlen_nonneg[of "\<lceil>1 / q\<rceil> - 1"] by (simp add: ilog2_def)
qed

lemma ilog2_lower:
  assumes "0 < q"
  shows "pow2 (ilog2 q) \<le> q"
proof (cases "1 \<le> q")
  case True
  then have p: "0 < \<lfloor>q\<rfloor>" by simp
  have b: "1 \<le> bitlen \<lfloor>q\<rfloor>" using p by (simp add: bitlen_alt_def)
  have "(2 :: int) ^ nat (bitlen \<lfloor>q\<rfloor> - 1) \<le> \<lfloor>q\<rfloor>" using bitlen_bounds[OF p] by simp
  then have "(of_int (2 ^ nat (bitlen \<lfloor>q\<rfloor> - 1)) :: rat) \<le> of_int \<lfloor>q\<rfloor>"
    by (simp only: of_int_le_iff)
  also have "\<dots> \<le> q" by simp
  finally show ?thesis using True b by (simp add: ilog2_def pow2_def)
next
  case False
  define r where "r = \<lceil>1 / q\<rceil>"
  define b where "b = bitlen (r - 1)"
  have "1 < 1 / q" using False assms by (simp add: field_simps)
  then have r2: "2 \<le> r" unfolding r_def by (simp add: le_ceiling_iff)
  then have p: "0 < r - 1" by simp
  have b1: "1 \<le> b" using p by (simp add: b_def bitlen_alt_def)
  have "r - 1 < 2 ^ nat b" using bitlen_bounds[OF p] by (simp add: b_def)
  then have "r \<le> 2 ^ nat b" by simp
  then have "(of_int r :: rat) \<le> of_int (2 ^ nat b)" by (simp only: of_int_le_iff)
  then have "(of_int r :: rat) \<le> 2 ^ nat b" by simp
  moreover have "1 / q \<le> of_int r" unfolding r_def by simp
  ultimately have "1 / q \<le> 2 ^ nat b" by (rule order_trans[rotated])
  then have "1 / 2 ^ nat b \<le> q" using assms by (simp add: field_simps)
  moreover have "ilog2 q = - b" using False by (simp add: ilog2_def b_def r_def)
  ultimately show ?thesis using b1 by (simp add: pow2_def)
qed

lemma round_even_int: "round_even (of_int k) = k"
  by (simp add: round_even_def)

lemma round_even_le: "round_even x \<le> \<lceil>x\<rceil>"
proof -
  have "\<lfloor>x\<rfloor> + 1 \<le> \<lceil>x\<rceil>" if "x \<noteq> of_int \<lfloor>x\<rfloor>"
    using that by (metis ceiling_altdef order_refl)
  moreover have "\<lfloor>x\<rfloor> \<le> \<lceil>x\<rceil>" by (rule floor_le_ceiling)
  ultimately show ?thesis by (auto simp: round_even_def Let_def)
qed

lemma round_even_ge: "\<lfloor>x\<rfloor> \<le> round_even x"
  by (simp add: round_even_def Let_def)

lemma round_even_up: "1 / 2 < x - of_int \<lfloor>x\<rfloor> \<Longrightarrow> round_even x = \<lfloor>x\<rfloor> + 1"
  by (simp add: round_even_def Let_def)

lemma round_double_int:
  assumes "0 \<le> t" "t < 2 ^ 53"
  shows "round_double (of_int t) = of_int t"
proof (cases "t = 0")
  case True
  then show ?thesis by (simp add: round_double_def)
next
  case False
  then have pos: "0 < (of_int t :: rat)" using assms(1) by simp
  have lt: "(of_int t :: rat) < 2 ^ 53" using assms(2) by (metis of_int_less_iff of_int_numeral of_int_power)
  define k where "k = nat (52 - ilog2 (of_int t))"
  have u: "pow2 (ilog2 (of_int t) - 52) = 1 / 2 ^ k"
    unfolding k_def by (rule pow2_low[OF ilog2_le[OF pos lt]])
  have "(of_int t :: rat) / (1 / 2 ^ k) = of_int (t * 2 ^ k)" by simp
  then have "round_even ((of_int t :: rat) / (1 / 2 ^ k)) = t * 2 ^ k"
    by (simp only: round_even_int)
  then show ?thesis
    using pos by (simp add: round_double_def u Let_def)
qed

lemma ceil_round_double:
  assumes "0 \<le> t" "t < 2 ^ 53" "0 < n"
  shows "\<lceil>round_double (of_int t / of_int n)\<rceil> = \<lceil>(of_int t / of_int n :: rat)\<rceil>"
proof (cases "t = 0")
  case True
  then show ?thesis by (simp add: round_double_def)
next
  case False
  define q :: rat where "q = of_int t / of_int n"
  define c where "c = \<lceil>q\<rceil>"
  have tpos: "0 < t" using False assms(1) by simp
  have pos: "0 < q" unfolding q_def using tpos assms(3) by simp
  have "q \<le> of_int t" unfolding q_def using assms(1,3)
    by (simp add: divide_le_eq mult_le_cancel_left1 flip: of_int_mult)
  moreover have "(of_int t :: rat) < 2 ^ 53"
    using assms(2) by (metis of_int_less_iff of_int_numeral of_int_power)
  ultimately have lt: "q < 2 ^ 53" by simp
  define k where "k = nat (52 - ilog2 q)"
  have e: "ilog2 q \<le> 52" by (rule ilog2_le[OF pos lt])
  have u: "pow2 (ilog2 q - 52) = 1 / 2 ^ k" unfolding k_def by (rule pow2_low[OF e])
  define m where "m = q * 2 ^ k"
  define r where "r = round_even m"
  have rd: "round_double q = of_int r / 2 ^ k"
    using pos by (simp add: round_double_def u Let_def r_def m_def)
  \<comment> \<open>not above the ceiling\<close>
  have "m \<le> of_int (c * 2 ^ k)"
    unfolding m_def c_def by (simp add: mult_right_mono)
  then have "\<lceil>m\<rceil> \<le> c * 2 ^ k" by (simp only: ceiling_le_iff)
  then have "r \<le> c * 2 ^ k" using round_even_le[of m] unfolding r_def by simp
  then have "(of_int r :: rat) \<le> of_int (c * 2 ^ k)" by (simp only: of_int_le_iff)
  then have up: "round_double q \<le> of_int c" unfolding rd by (simp add: divide_le_eq)
  \<comment> \<open>above the ceiling minus one\<close>
  have "of_int (c - 1) < q" unfolding c_def using ceiling_correct[of q] by simp
  then have "of_int ((c - 1) * n) < (of_int t :: rat)"
    unfolding q_def using assms(3) by (simp add: pos_less_divide_eq)
  then have "(c - 1) * n < t" by (simp only: of_int_less_iff)
  then have "(c - 1) * n + 1 \<le> t" by simp
  then have "(of_int ((c - 1) * n + 1) :: rat) \<le> of_int t" by (simp only: of_int_le_iff)
  then have gap: "of_int (c - 1) + 1 / of_int n \<le> q"
    unfolding q_def using assms(3) by (simp add: pos_le_divide_eq distrib_right)
  have pk: "pow2 (ilog2 q) * 2 ^ k = 2 ^ 52"
  proof (cases "0 \<le> ilog2 q")
    case True
    then have "nat (ilog2 q) + k = 52" using e unfolding k_def by simp
    then have "(2 :: rat) ^ nat (ilog2 q) * 2 ^ k = 2 ^ 52"
      by (simp only: power_add[symmetric])
    then show ?thesis using True by (simp only: pow2_def if_True)
  next
    case False
    then have "k = 52 + nat (- ilog2 q)" unfolding k_def by simp
    then have "(2 :: rat) ^ k = 2 ^ 52 * 2 ^ nat (- ilog2 q)"
      by (simp only: power_add)
    moreover have "(2 :: rat) ^ nat (- ilog2 q) \<noteq> 0" by simp
    ultimately have "1 / 2 ^ nat (- ilog2 q) * (2 :: rat) ^ k = 2 ^ 52"
      by simp
    then show ?thesis using False by (simp only: pow2_def if_False)
  qed
  have "pow2 (ilog2 q) * 2 ^ k \<le> q * 2 ^ k"
    using ilog2_lower[OF pos] by (intro mult_right_mono) simp_all
  then have "(2 :: rat) ^ 52 \<le> q * 2 ^ k" unfolding pk .
  then have A: "(2 :: rat) ^ 52 * of_int n \<le> of_int t * 2 ^ k"
    unfolding q_def using assms(3) by (simp add: pos_le_divide_eq field_simps)
  have B: "(of_int t :: rat) * 2 ^ k < 2 ^ 53 * 2 ^ k"
    using \<open>(of_int t :: rat) < 2 ^ 53\<close> by (intro mult_strict_right_mono) simp_all
  have "(2 :: rat) ^ 52 * of_int n < 2 ^ 53 * 2 ^ k" using A B by (rule le_less_trans)
  then have "(of_int n :: rat) < 2 * 2 ^ k" by simp
  then have half: "1 / 2 < (2 :: rat) ^ k / of_int n"
    using assms(3) by (simp add: pos_less_divide_eq)
  have "of_int ((c - 1) * 2 ^ k) + 2 ^ k / of_int n \<le> m"
    using mult_right_mono[OF gap, of "2 ^ k"] unfolding m_def by (simp add: distrib_right)
  then have mk: "of_int ((c - 1) * 2 ^ k) + 1 / 2 < m" using half by linarith
  have "(c - 1) * 2 ^ k + 1 \<le> r"
  proof (cases "\<lfloor>m\<rfloor> = (c - 1) * 2 ^ k")
    case True
    then have "1 / 2 < m - of_int \<lfloor>m\<rfloor>" using mk by simp
    then show ?thesis unfolding r_def using True by (simp add: round_even_up)
  next
    case False
    have "(c - 1) * 2 ^ k \<le> \<lfloor>m\<rfloor>" using mk by (simp add: le_floor_iff)
    then have "(c - 1) * 2 ^ k + 1 \<le> \<lfloor>m\<rfloor>" using False by simp
    then show ?thesis using round_even_ge[of m] unfolding r_def by simp
  qed
  then have "(of_int ((c - 1) * 2 ^ k + 1) :: rat) \<le> of_int r" by (simp only: of_int_le_iff)
  then have "of_int (c - 1) + 1 / 2 ^ k \<le> (of_int r :: rat) / 2 ^ k"
    by (simp add: pos_le_divide_eq distrib_right)
  moreover have "0 < 1 / (2 :: rat) ^ k" by simp
  ultimately have lo: "of_int (c - 1) < round_double q" unfolding rd by linarith
  have "\<lceil>round_double q\<rceil> = c"
    using up lo by (simp add: ceiling_eq_iff)
  then show ?thesis unfolding c_def q_def .
qed

text \<open>
  Within the range of the types involved the constructor does what it sets out to
  do: with a positive shard count \<open>n\<close> (the argument, or the hardware concurrency when
  the argument is not positive), a total capacity below \<open>2\<^sup>5\<^sup>3\<close> and a quotient that
  fits an \<^verbatim>\<open>int\<close>, it builds \<open>n\<close> shards of capacity \<open>\<lceil>T / n\<rceil>\<close> each, which together hold
  at least \<open>T\<close> entries.
\<close>

lemma shard_capacity_in_range:
  fixes T :: "64 word" and N hw :: "32 word"
  defines "n \<equiv> (if 0 < sint N then N else hw)"
  defines "c \<equiv> \<lceil>(of_int (uint T) / of_int (sint n) :: rat)\<rceil>"
  assumes "0 < sint n" "uint T < 2 ^ 53" "c < 2 ^ 31"
  shows "\<exists>h. KHashFifoCache hw dk dv T N = Some h \<and> sliceNum h = n \<and>
    length (fifoSliceCaches h) = nat (sint n) \<and>
    (\<forall>s \<in> set (fifoSliceCaches h). sint (capacity s) = c) \<and>
    uint T \<le> sint n * c"
proof -
  define t where "t = uint T"
  define m where "m = sint n"
  have t0: "0 \<le> t" and t53: "t < 2 ^ 53" and mpos: "0 < m"
    using assms(3,4) by (simp_all add: t_def m_def)
  have c: "c = \<lceil>(of_int t / of_int m :: rat)\<rceil>" unfolding c_def t_def m_def ..
  have z: "\<lceil>round_double (round_double (of_int t) / of_int m)\<rceil> = c"
    unfolding c round_double_int[OF t0 t53] by (rule ceil_round_double[OF t0 t53 mpos])
  have "(0 :: rat) \<le> of_int t / of_int m" using t0 mpos by simp
  then have "\<lceil>0 :: rat\<rceil> \<le> c" unfolding c by (rule ceiling_mono)
  then have c0: "0 \<le> c" by simp
  have n0: "n \<noteq> 0" using assms(3) by auto
  obtain l where l: "make_slices (nat m) dk dv (word_of_int c) = Some l"
    "length l = nat m" "\<forall>s \<in> set l. capacity s = word_of_int c"
    using make_slices_inv[of "nat m" dk dv "word_of_int c"] by blast
  have "signed_take_bit (LENGTH(32) - 1) c = c"
    using c0 assms(5) by (intro signed_take_bit_int_eq_self) simp_all
  then have sc: "sint (word_of_int c :: 32 word) = c"
    by (simp only: sint_sbintrunc')
  have "(of_int t :: rat) / of_int m \<le> of_int c" unfolding c by simp
  then have "(of_int t :: rat) \<le> of_int (m * c)"
    using mpos by (simp add: pos_divide_le_eq mult.commute)
  then have tot: "t \<le> m * c" by (simp only: of_int_le_iff)
  have "KHashFifoCache hw dk dv T N =
      Some \<lparr>total_capacity = T, sliceNum = n, fifoSliceCaches = l\<rparr>"
    unfolding KHashFifoCache_def n_def[symmetric] Let_def t_def[symmetric] m_def[symmetric] z
    using n0 c0 assms(5) l(1) by simp
  then show ?thesis using l(2,3) sc tot unfolding t_def m_def by auto
qed

section \<open>The claims\<close>

text \<open>
  C1.  In a cache of capacity \<open>C \<ge> 1\<close>, a \<open>put\<close> of an absent key into a full cache
  first evicts the head of the queue, from the queue and from the index, and then
  appends the new entry at the tail and enters it in the index; every other entry
  stays.  Hence after \<open>C + 1\<close> distinct keys have been put into the empty cache, the
  first key is absent and the others are present, in insertion order.
\<close>

theorem fifo_eviction_order:
  "1 \<le> sint C \<Longrightarrow>
   (\<forall>cs s k v. KFifoCache dk dv C \<bind> run cs = Some s \<and> k \<notin> index_keys s \<and>
        sint C \<le> int (entry_count s) \<longrightarrow>
      (\<exists>e es s1 s'. queue s = Some (e # es) \<and>
         evictOldest s = Some s1 \<and> queue s1 = Some es \<and> index_keys s1 = index_keys s - {fst e} \<and>
         put k v s = Some s' \<and> queue s' = Some (es @ [(k, v)]) \<and>
         index_keys s' = insert k (index_keys s - {fst e}) \<and> fst e \<notin> index_keys s' \<and>
         entry_count s' = entry_count s)) \<and>
   (\<forall>kvs. distinct (map fst kvs) \<and> int (length kvs) = sint C + 1 \<longrightarrow>
      (\<exists>s. KFifoCache dk dv C \<bind> run (map (\<lambda>(k, v). Put k v) kvs) = Some s \<and>
         queue s = Some (tl kvs) \<and>
         (\<forall>w. get (fst (hd kvs)) w s = Some (False, w, s)) \<and>
         (\<forall>(k, v) \<in> set (tl kvs). \<forall>w. get k w s = Some (True, v, s))))"
proof (intro conjI allI impI)
  fix cs s k v
  assume pos: "1 \<le> sint C"
    and "KFifoCache dk dv C \<bind> run cs = Some s \<and> k \<notin> index_keys s \<and>
        sint C \<le> int (entry_count s)"
  then have r: "KFifoCache dk dv C \<bind> run cs = Some s" and a: "k \<notin> index_keys s"
    and f: "sint C \<le> int (entry_count s)" by simp_all
  obtain q where q: "cache_inv s 0 1 q" "capacity s = C" using reachable_unique[OF r] by blast
  have none: "map_of (nodeMap s) k = None"
    using a by (simp add: index_keys_def map_of_eq_None_iff)
  have full: "sint (capacity s) \<le> int (length q)"
    using f inv_entry_count[OF q(1)] q(2) by simp
  have pos': "0 < sint (capacity s)" using pos q(2) by simp
  from put_new_full[OF q(1) pos' none full, of v] obtain x kx vx q2 s1 s' b where
    1: "q = (x, kx, vx) # q2" "evictOldest s = Some s1" "cache_inv s1 0 1 q2"
    "put k v s = Some s'" "cache_inv s' 0 1 (q2 @ [(b, k, v)])" by blast
  have dk: "distinct (map fst (map snd q))" by (rule inv_entries(1)[OF q(1)])
  then have kx: "kx \<notin> fst ` set (map snd q2)" unfolding 1(1) by force
  have ks: "index_keys s = insert kx (fst ` set (map snd q2))"
    using inv_index_keys[OF q(1)] unfolding 1(1) by simp
  have ne: "k \<noteq> kx" using a ks by auto
  show "\<exists>e es s1 s'. queue s = Some (e # es) \<and>
         evictOldest s = Some s1 \<and> queue s1 = Some es \<and> index_keys s1 = index_keys s - {fst e} \<and>
         put k v s = Some s' \<and> queue s' = Some (es @ [(k, v)]) \<and>
         index_keys s' = insert k (index_keys s - {fst e}) \<and> fst e \<notin> index_keys s' \<and>
         entry_count s' = entry_count s"
  proof (intro exI conjI)
    show "queue s = Some ((kx, vx) # map snd q2)" using inv_queue[OF q(1)] by (simp add: 1(1))
    show "evictOldest s = Some s1" by (rule 1(2))
    show "queue s1 = Some (map snd q2)" by (rule inv_queue[OF 1(3)])
    show "index_keys s1 = index_keys s - {fst (kx, vx)}"
      unfolding inv_index_keys[OF 1(3)] ks using kx by auto
    show "put k v s = Some s'" by (rule 1(4))
    show "queue s' = Some (map snd q2 @ [(k, v)])" using inv_queue[OF 1(5)] by simp
    show "index_keys s' = insert k (index_keys s - {fst (kx, vx)})"
      unfolding inv_index_keys[OF 1(5)] ks using kx by auto
    show "fst (kx, vx) \<notin> index_keys s'"
      unfolding inv_index_keys[OF 1(5)] using kx ne by auto
    show "entry_count s' = entry_count s"
      unfolding inv_entry_count[OF 1(5)] inv_entry_count[OF q(1)] by (simp add: 1(1))
  qed
next
  fix kvs :: "('a \<times> 'b) list"
  assume pos: "1 \<le> sint C" and "distinct (map fst kvs) \<and> int (length kvs) = sint C + 1"
  then have d: "distinct (map fst kvs)" and l: "int (length kvs) = sint C + 1" by simp_all
  let ?cs = "map (\<lambda>(k, v). Put k v) kvs"
  obtain s q where s: "KFifoCache dk dv C \<bind> run ?cs = Some s" "cache_inv s 0 1 q"
    "map snd q = fifo_run (sint C) ?cs []"
    using reachable[of dk dv C ?cs] by blast
  obtain e es where kvs: "kvs = e # es" using l pos by (cases kvs) auto
  have "length kvs - nat (sint C) = 1" using l pos by linarith
  then have es: "map snd q = es" using fifo_run_puts[OF d pos] s(3) by (simp add: kvs)
  have dk: "distinct (map fst es)" and e: "fst e \<notin> fst ` set es" using d by (simp_all add: kvs)
  show "\<exists>s. KFifoCache dk dv C \<bind> run ?cs = Some s \<and> queue s = Some (tl kvs) \<and>
         (\<forall>w. get (fst (hd kvs)) w s = Some (False, w, s)) \<and>
         (\<forall>(k, v) \<in> set (tl kvs). \<forall>w. get k w s = Some (True, v, s))"
  proof (intro exI[of _ s] conjI allI ballI)
    show "KFifoCache dk dv C \<bind> run ?cs = Some s" by (rule s(1))
    show "queue s = Some (tl kvs)" using inv_queue[OF s(2)] es by (simp add: kvs)
    show "get (fst (hd kvs)) w s = Some (False, w, s)" for w
    proof -
      have "map_of es (fst e) = None" using e by (simp add: map_of_eq_None_iff)
      then show ?thesis unfolding get_inv[OF s(2)] es by (simp add: kvs)
    qed
    show "case x of (k, v) \<Rightarrow> \<forall>w. get k w s = Some (True, v, s)" if "x \<in> set (tl kvs)" for x
    proof -
      obtain k v where x: "x = (k, v)" by (cases x)
      have "map_of es k = Some v" using that dk by (simp add: kvs x)
      then show ?thesis unfolding get_inv[OF s(2)] es by (simp add: x)
    qed
  qed
qed

theorem fifo_eviction_order_witness:
  "1 \<le> sint (2 :: 32 word) \<and>
   (\<exists>s. KFifoCache (0::nat) (0::nat) 2 \<bind> run [Put 1 10, Put 2 20] = Some s \<and>
      3 \<notin> index_keys s \<and> sint (2 :: 32 word) \<le> int (entry_count s) \<and>
      (\<exists>e es s1 s'. queue s = Some (e # es) \<and>
         evictOldest s = Some s1 \<and> queue s1 = Some es \<and> index_keys s1 = index_keys s - {fst e} \<and>
         put 3 30 s = Some s' \<and> queue s' = Some (es @ [(3, 30)]) \<and>
         index_keys s' = insert 3 (index_keys s - {fst e}) \<and> fst e \<notin> index_keys s' \<and>
         entry_count s' = entry_count s)) \<and>
   distinct (map fst [(1::nat, 10::nat), (2, 20), (3, 30)]) \<and>
   int (length [(1::nat, 10::nat), (2, 20), (3, 30)]) = sint (2 :: 32 word) + 1 \<and>
   (\<exists>s. KFifoCache (0::nat) (0::nat) 2 \<bind> run [Put 1 10, Put 2 20, Put 3 30] = Some s \<and>
      queue s = Some [(2, 20), (3, 30)] \<and> get 1 7 s = Some (False, 7, s) \<and>
      get 2 7 s = Some (True, 20, s) \<and> get 3 7 s = Some (True, 30, s))"
proof -
  have p: "1 \<le> sint (2 :: 32 word)" by simp
  note t = fifo_eviction_order[OF p, of "0::nat" "0::nat"]
  obtain s where s: "KFifoCache (0::nat) (0::nat) 2 \<bind> run [Put 1 (10::nat), Put 2 20] = Some s"
    "index_keys s = fst ` set (fifo_run (sint (2 :: 32 word)) [Put (1::nat) (10::nat), Put 2 20] [])"
    "entry_count s = length (fifo_run (sint (2 :: 32 word)) [Put (1::nat) (10::nat), Put 2 20] [])"
    using reachable_obs[of "0::nat" "0::nat" 2 "[Put 1 10, Put 2 20]"] by blast
  have h: "3 \<notin> index_keys s" "sint (2 :: 32 word) \<le> int (entry_count s)"
    unfolding s(2,3) by (simp_all add: fifo_run_def fifo_put_def)
  have 1: "\<exists>e es s1 s'. queue s = Some (e # es) \<and>
         evictOldest s = Some s1 \<and> queue s1 = Some es \<and> index_keys s1 = index_keys s - {fst e} \<and>
         put 3 30 s = Some s' \<and> queue s' = Some (es @ [(3, 30)]) \<and>
         index_keys s' = insert 3 (index_keys s - {fst e}) \<and> fst e \<notin> index_keys s' \<and>
         entry_count s' = entry_count s"
    using t[THEN conjunct1, rule_format, of "[Put 1 10, Put 2 20]" s 3 30] s(1) h by blast
  have d: "distinct (map fst [(1::nat, 10::nat), (2, 20), (3, 30)]) \<and>
     int (length [(1::nat, 10::nat), (2, 20), (3, 30)]) = sint (2 :: 32 word) + 1" by simp
  have 2: "\<exists>s. KFifoCache (0::nat) (0::nat) 2 \<bind> run [Put 1 10, Put 2 20, Put 3 30] = Some s \<and>
      queue s = Some [(2, 20), (3, 30)] \<and> get 1 7 s = Some (False, 7, s) \<and>
      get 2 7 s = Some (True, 20, s) \<and> get 3 7 s = Some (True, 30, s)"
    using t[THEN conjunct2, rule_format, of "[(1, 10), (2, 20), (3, 30)]", OF d] by force
  show ?thesis using p s(1) h 1 d 2 by blast
qed

text \<open>
  C2.  In a cache of capacity \<open>C \<ge> 1\<close>, after any sequence of calls the entry count
  is at most \<open>C\<close>, it is still at most \<open>C\<close> after one more \<open>put\<close>, and that \<open>put\<close> removes
  at most one key from the index.
\<close>

theorem bounded_size:
  "1 \<le> sint C \<Longrightarrow> KFifoCache dk dv C \<bind> run cs = Some s \<Longrightarrow>
   int (entry_count s) \<le> sint C \<and>
   (\<exists>s'. put k v s = Some s' \<and> int (entry_count s') \<le> sint C \<and>
      card (index_keys s - index_keys s') \<le> 1)"
proof -
  assume pos: "1 \<le> sint C" and r: "KFifoCache dk dv C \<bind> run cs = Some s"
  obtain q where q: "cache_inv s 0 1 q" "capacity s = C" using reachable_unique[OF r] by blast
  obtain s' q' where s': "put k v s = Some s'" "cache_inv s' 0 1 q'" "capacity s' = capacity s"
    "map snd q' = fifo_put (sint (capacity s)) k v (map snd q)"
    using put_inv[OF q(1), of k v] by blast
  have 1: "int (entry_count s) \<le> sint C"
    using cache_invD(12)[OF q(1)] inv_entry_count[OF q(1)] pos q(2) by simp
  have 2: "int (entry_count s') \<le> sint C"
    using cache_invD(12)[OF s'(2)] inv_entry_count[OF s'(2)] pos q(2) s'(3) by simp
  have "index_keys s - index_keys s' \<subseteq> {fst (hd (map snd q))}"
    unfolding inv_index_keys[OF q(1)] inv_index_keys[OF s'(2)] s'(4) by (rule fifo_put_evicts)
  then have "card (index_keys s - index_keys s') \<le> card {fst (hd (map snd q))}"
    by (intro card_mono) simp_all
  then have 3: "card (index_keys s - index_keys s') \<le> 1" by simp
  show ?thesis using 1 2 3 s'(1) by blast
qed

theorem bounded_size_witness:
  "1 \<le> sint (2 :: 32 word) \<and>
   (\<exists>s. KFifoCache (0::nat) (0::nat) 2 \<bind> run [Put 1 10, Put 2 20, Put 1 11] = Some s \<and>
      int (entry_count s) \<le> sint (2 :: 32 word) \<and>
      (\<exists>s'. put 3 30 s = Some s' \<and> int (entry_count s') \<le> sint (2 :: 32 word) \<and>
         card (index_keys s - index_keys s') \<le> 1))"
proof -
  have p: "1 \<le> sint (2 :: 32 word)" by simp
  obtain s where s: "KFifoCache (0::nat) (0::nat) 2 \<bind> run [Put 1 (10::nat), Put 2 20, Put 1 11] = Some s"
    using reachable[of "0::nat" "0::nat" 2 "[Put 1 10, Put 2 20, Put 1 11]"] by blast
  from bounded_size[OF p s, of 3 30] p s show ?thesis by blast
qed

text \<open>
  C3, as the code has it.  A \<open>put\<close> of a present key replaces the payload where the
  entry stands: the order of keys in the queue is unchanged and \<open>get\<close> returns the new
  payload.  The entry keeps its age: when the cache holds \<open>k\<^sub>1 \<dots> k\<^sub>C\<close>, \<open>put\<close> of \<open>k\<^sub>1\<close> with
  a new payload followed by \<open>put\<close> of a new key evicts \<open>k\<^sub>1\<close>, still the oldest entry, and
  \<open>k\<^sub>2 \<dots> k\<^sub>C\<close> and the new key remain.
\<close>

theorem update_keeps_position:
  "(\<forall>cs s k v. KFifoCache dk dv C \<bind> run cs = Some s \<and> k \<in> index_keys s \<longrightarrow>
      (\<exists>es s'. queue s = Some es \<and> put k v s = Some s' \<and>
         queue s' = Some (map (\<lambda>(k', v'). if k' = k then (k', v) else (k', v')) es) \<and>
         map_option (map fst) (queue s') = map_option (map fst) (queue s) \<and>
         (\<forall>w. get k w s' = Some (True, v, s')))) \<and>
   (\<forall>kvs v1 k' v'. 1 \<le> sint C \<and> distinct (map fst kvs @ [k']) \<and> int (length kvs) = sint C \<longrightarrow>
      (\<exists>s. KFifoCache dk dv C \<bind>
              run (map (\<lambda>(k, v). Put k v) kvs @ [Put (fst (hd kvs)) v1, Put k' v']) = Some s \<and>
         queue s = Some (tl kvs @ [(k', v')]) \<and>
         (\<forall>w. get (fst (hd kvs)) w s = Some (False, w, s)) \<and>
         (\<forall>w. get k' w s = Some (True, v', s))))"
proof (intro conjI allI impI)
  fix cs s k v
  assume "KFifoCache dk dv C \<bind> run cs = Some s \<and> k \<in> index_keys s"
  then have r: "KFifoCache dk dv C \<bind> run cs = Some s" and a: "k \<in> index_keys s" by simp_all
  obtain q where q: "cache_inv s 0 1 q" "capacity s = C" using reachable_unique[OF r] by blast
  let ?es = "map snd q"
  let ?es' = "map (\<lambda>(k', v'). if k' = k then (k', v) else (k', v')) ?es"
  have mem: "k \<in> fst ` set ?es" using a unfolding inv_index_keys[OF q(1)] .
  then have "q \<noteq> []" by auto
  then have pos: "0 < sint (capacity s)" using cache_invD(12)[OF q(1)] by (cases q) auto
  obtain s' q' where s': "put k v s = Some s'" "cache_inv s' 0 1 q'"
    "map snd q' = fifo_put (sint (capacity s)) k v ?es"
    using put_inv[OF q(1), of k v] by blast
  have es': "map snd q' = ?es'" using s'(3) mem pos by (simp add: fifo_put_def)
  show "\<exists>es s'. queue s = Some es \<and> put k v s = Some s' \<and>
         queue s' = Some (map (\<lambda>(k', v'). if k' = k then (k', v) else (k', v')) es) \<and>
         map_option (map fst) (queue s') = map_option (map fst) (queue s) \<and>
         (\<forall>w. get k w s' = Some (True, v, s'))"
  proof (intro exI conjI allI)
    show "queue s = Some ?es" by (rule inv_queue[OF q(1)])
    show "put k v s = Some s'" by (rule s'(1))
    show "queue s' = Some ?es'" using inv_queue[OF s'(2)] es' by simp
    show "map_option (map fst) (queue s') = map_option (map fst) (queue s)"
      unfolding inv_queue[OF s'(2)] inv_queue[OF q(1)] es'
      by (simp only: option.map map_update_keys)
    show "get k w s' = Some (True, v, s')" for w
      unfolding get_inv[OF s'(2)] es' map_of_update[OF mem] by simp
  qed
next
  fix kvs :: "('a \<times> 'b) list" and v1 k' v'
  assume "1 \<le> sint C \<and> distinct (map fst kvs @ [k']) \<and> int (length kvs) = sint C"
  then have pos: "1 \<le> sint C" and d: "distinct (map fst kvs)" and n: "k' \<notin> fst ` set kvs"
    and l: "int (length kvs) = sint C" by simp_all
  obtain e es where kvs: "kvs = e # es" using l pos by (cases kvs) auto
  obtain k1 v0 where e: "e = (k1, v0)" by (cases e)
  let ?ps = "map (\<lambda>(k, v). Put k v) kvs"
  let ?cs = "?ps @ [Put (fst (hd kvs)) v1, Put k' v']"
  obtain s q where s: "KFifoCache dk dv C \<bind> run ?cs = Some s" "cache_inv s 0 1 q"
    "map snd q = fifo_run (sint C) ?cs []"
    using reachable[of dk dv C ?cs] by blast
  have "length kvs - nat (sint C) = 0" using l by simp
  then have 1: "fifo_run (sint C) ?ps [] = kvs" using fifo_run_puts[OF d pos] by simp
  have k1: "k1 \<notin> fst ` set es" and k1': "k1 \<noteq> k'" using d n by (auto simp: kvs e)
  have 2: "fifo_put (sint C) k1 v1 kvs = (k1, v1) # es"
    using fifo_put_update[of "[]" k1 v0 es "sint C" v1] d pos by (simp add: kvs e)
  have 3: "fifo_put (sint C) k' v' ((k1, v1) # es) = es @ [(k', v')]"
    using n pos l k1' by (auto simp: fifo_put_def kvs e)
  have es: "map snd q = es @ [(k', v')]"
    unfolding s(3) fifo_run_append 1 by (simp add: fifo_run_def kvs e 2[unfolded kvs e] 3)
  show "\<exists>s. KFifoCache dk dv C \<bind> run ?cs = Some s \<and>
         queue s = Some (tl kvs @ [(k', v')]) \<and>
         (\<forall>w. get (fst (hd kvs)) w s = Some (False, w, s)) \<and>
         (\<forall>w. get k' w s = Some (True, v', s))"
  proof (intro exI[of _ s] conjI allI)
    show "KFifoCache dk dv C \<bind> run ?cs = Some s" by (rule s(1))
    show "queue s = Some (tl kvs @ [(k', v')])" using inv_queue[OF s(2)] es by (simp add: kvs)
    show "get (fst (hd kvs)) w s = Some (False, w, s)" for w
    proof -
      have m: "map_of (es @ [(k', v')]) k1 = None" using k1 k1' by (simp add: map_of_eq_None_iff)
      have "get k1 w s = Some (False, w, s)" unfolding get_inv[OF s(2)] es m by simp
      then show ?thesis by (simp add: kvs e)
    qed
    show "get k' w s = Some (True, v', s)" for w
    proof -
      have "k' \<notin> fst ` set es" using n by (simp add: kvs)
      then have "map_of es k' = None" by (simp add: map_of_eq_None_iff)
      then have m: "map_of (es @ [(k', v')]) k' = Some v'" by (simp add: map_add_def)
      show ?thesis unfolding get_inv[OF s(2)] es m by simp
    qed
  qed
qed

theorem update_keeps_position_witness:
  "(\<exists>s. KFifoCache (0::nat) (0::nat) 2 \<bind> run [Put 1 10, Put 2 20] = Some s \<and> 1 \<in> index_keys s \<and>
      (\<exists>es s'. queue s = Some es \<and> put 1 11 s = Some s' \<and>
         queue s' = Some (map (\<lambda>(k', v'). if k' = 1 then (k', 11) else (k', v')) es) \<and>
         map_option (map fst) (queue s') = map_option (map fst) (queue s) \<and>
         get 1 0 s' = Some (True, 11, s'))) \<and>
   1 \<le> sint (2 :: 32 word) \<and> distinct (map fst [(1::nat, 10::nat), (2, 20)] @ [3]) \<and>
   int (length [(1::nat, 10::nat), (2, 20)]) = sint (2 :: 32 word) \<and>
   (\<exists>s. KFifoCache (0::nat) (0::nat) 2 \<bind> run [Put 1 10, Put 2 20, Put 1 11, Put 3 30] = Some s \<and>
      queue s = Some [(2, 20), (3, 30)] \<and> get 1 0 s = Some (False, 0, s) \<and>
      get 3 0 s = Some (True, 30, s))"
proof -
  note t = update_keeps_position[of "0::nat" "0::nat" 2]
  obtain s where s: "KFifoCache (0::nat) (0::nat) 2 \<bind> run [Put 1 (10::nat), Put 2 20] = Some s"
    "index_keys s = fst ` set (fifo_run (sint (2 :: 32 word)) [Put (1::nat) (10::nat), Put 2 20] [])"
    using reachable_obs[of "0::nat" "0::nat" 2 "[Put 1 10, Put 2 20]"] by blast
  have h: "1 \<in> index_keys s" unfolding s(2) by (simp add: fifo_run_def fifo_put_def)
  have "\<exists>es s'. queue s = Some es \<and> put 1 11 s = Some s' \<and>
         queue s' = Some (map (\<lambda>(k', v'). if k' = 1 then (k', 11) else (k', v')) es) \<and>
         map_option (map fst) (queue s') = map_option (map fst) (queue s) \<and>
         (\<forall>w. get 1 w s' = Some (True, 11, s'))"
    using t[THEN conjunct1, rule_format, of "[Put 1 10, Put 2 20]" s 1 11] s(1) h by blast
  then have 1: "\<exists>es s'. queue s = Some es \<and> put 1 11 s = Some s' \<and>
         queue s' = Some (map (\<lambda>(k', v'). if k' = 1 then (k', 11) else (k', v')) es) \<and>
         map_option (map fst) (queue s') = map_option (map fst) (queue s) \<and>
         get 1 0 s' = Some (True, 11, s')"
    by (elim exE conjE) (intro exI conjI, (assumption | erule spec)+)
  have d: "1 \<le> sint (2 :: 32 word) \<and> distinct (map fst [(1::nat, 10::nat), (2, 20)] @ [3]) \<and>
     int (length [(1::nat, 10::nat), (2, 20)]) = sint (2 :: 32 word)" by simp
  have "\<exists>s. KFifoCache (0::nat) (0::nat) 2 \<bind>
          run (map (\<lambda>(k, v). Put k v) [(1, 10), (2, 20)] @ [Put (fst (hd [(1::nat, 10::nat), (2, 20)])) 11, Put 3 30]) = Some s \<and>
      queue s = Some (tl [(1, 10), (2, 20)] @ [(3, 30)]) \<and>
      (\<forall>w. get (fst (hd [(1::nat, 10::nat), (2, 20)])) w s = Some (False, w, s)) \<and>
      (\<forall>w. get 3 w s = Some (True, 30, s))"
    using t[THEN conjunct2, rule_format, of "[(1, 10), (2, 20)]" 3 11 30, OF d] .
  then have 2: "\<exists>s. KFifoCache (0::nat) (0::nat) 2 \<bind> run [Put 1 10, Put 2 20, Put 1 11, Put 3 30] = Some s \<and>
      queue s = Some [(2, 20), (3, 30)] \<and> get 1 0 s = Some (False, 0, s) \<and>
      get 3 0 s = Some (True, 30, s)"
    by force
  have 0: "\<exists>s. KFifoCache (0::nat) (0::nat) 2 \<bind> run [Put 1 10, Put 2 20] = Some s \<and> 1 \<in> index_keys s \<and>
      (\<exists>es s'. queue s = Some es \<and> put 1 11 s = Some s' \<and>
         queue s' = Some (map (\<lambda>(k', v'). if k' = 1 then (k', 11) else (k', v')) es) \<and>
         map_option (map fst) (queue s') = map_option (map fst) (queue s) \<and>
         get 1 0 s' = Some (True, 11, s'))"
    using s(1) h 1 by - (rule exI[of _ s], intro conjI; assumption)
  show ?thesis
    using 0 d[THEN conjunct1] d[THEN conjunct2, THEN conjunct1] d[THEN conjunct2, THEN conjunct2] 2
    by - (intro conjI; assumption)
qed

text \<open>
  C3 as stated fails: with capacity 2, after \<open>put\<close> of keys 1 and 2, \<open>put\<close> of key 1
  with a new payload and \<open>put\<close> of key 3, it is key 1 that is gone and key 2 that is
  still there.
\<close>

theorem update_refreshes_age_counterexample:
  "map_option fst (KFifoCache (0::nat) (0::nat) 2 \<bind>
      run [Put 1 10, Put 2 20, Put 1 11, Put 3 30] \<bind> get 1 0) = Some False \<and>
   map_option fst (KFifoCache (0::nat) (0::nat) 2 \<bind>
      run [Put 1 10, Put 2 20, Put 1 11, Put 3 30] \<bind> get 2 0) = Some True \<and>
   KFifoCache (0::nat) (0::nat) 2 \<bind>
      run [Put 1 10, Put 2 20, Put 1 11, Put 3 30] \<bind> queue = Some [(2, 20), (3, 30)]"
  by code_simp

text \<open>
  C4.  In every state reached from the constructor by calls of \<open>put\<close>, \<open>get\<close> and
  \<open>remove\<close>, index and queue agree: the index maps a key to a node exactly when that
  node is linked between the sentinels and holds the key; and the state after one
  more call agrees again.
\<close>

theorem index_queue_agreement:
  "\<exists>s. KFifoCache dk dv C \<bind> run cs = Some s \<and> index_agrees s \<and>
     (\<forall>k a. (map_of (nodeMap s) k = Some a) = (\<exists>q v. linked s = Some q \<and> (a, k, v) \<in> set q)) \<and>
     (\<forall>c. \<exists>s'. exec c s = Some s' \<and> index_agrees s')"
proof -
  obtain s q where s: "KFifoCache dk dv C \<bind> run cs = Some s" "cache_inv s 0 1 q"
    using reachable[of dk dv C cs] by blast
  have "(map_of (nodeMap s) k = Some a) = (\<exists>q v. linked s = Some q \<and> (a, k, v) \<in> set q)" for k a
    unfolding inv_map_of[OF s(2)] inv_linked[OF s(2)] by auto
  moreover have "\<exists>s'. exec c s = Some s' \<and> index_agrees s'" for c
    using exec_inv[OF s(2), of c] inv_index_agrees by blast
  ultimately show ?thesis using s(1) inv_index_agrees[OF s(2)] by blast
qed

theorem index_queue_agreement_witness:
  "\<exists>s. KFifoCache (0::nat) (0::nat) 2 \<bind> run [Put 1 10, Put 2 20, Remove 1, Put 3 30, Get 2 0] = Some s \<and>
     index_agrees s \<and> (\<exists>s'. exec (Put 4 40) s = Some s' \<and> index_agrees s') \<and>
     (\<exists>s'. exec (Remove 2) s = Some s' \<and> index_agrees s') \<and>
     (\<exists>s'. exec (Get 3 0) s = Some s' \<and> index_agrees s')"
proof -
  obtain s where s:
    "KFifoCache (0::nat) (0::nat) 2 \<bind> run [Put 1 (10::nat), Put 2 20, Remove 1, Put 3 30, Get 2 0] = Some s"
    "index_agrees s" "\<forall>c. \<exists>s'. exec c s = Some s' \<and> index_agrees s'"
    using index_queue_agreement[of "0::nat" "0::nat" 2 "[Put 1 10, Put 2 20, Remove 1, Put 3 30, Get 2 0]"]
    by (elim exE conjE) (rule that; assumption)
  show ?thesis
    using s(1,2) s(3)[rule_format, of "Put 4 40"] s(3)[rule_format, of "Remove 2"]
      s(3)[rule_format, of "Get 3 0"]
    by - (rule exI[of _ s], intro conjI; assumption)
qed

text \<open>
  C5, as the code has it.  \<open>get\<close> changes nothing: the cache it returns is the cache
  it was given.  For a present key it returns true and the payload the entry holds.
  For an absent key the two-argument form returns false and the caller's variable
  as it came in, whatever it held; the one-argument form returns the default payload
  \<open>dv\<close>.
\<close>

theorem get_is_read_only:
  "KFifoCache dk dv C \<bind> run cs = Some s \<Longrightarrow>
   \<exists>es. queue s = Some es \<and> exec (Get k w) s = Some s \<and>
     (k \<in> index_keys s \<longrightarrow>
        (\<exists>x. (k, x) \<in> set es \<and> get k w s = Some (True, x, s) \<and> get1 dv k s = Some (x, s))) \<and>
     (k \<notin> index_keys s \<longrightarrow> get k w s = Some (False, w, s) \<and> get1 dv k s = Some (dv, s))"
proof -
  assume r: "KFifoCache dk dv C \<bind> run cs = Some s"
  obtain q where q: "cache_inv s 0 1 q" using reachable_unique[OF r] by blast
  let ?es = "map snd q"
  note g = get_inv[OF q]
  have dk: "distinct (map fst ?es)" by (rule inv_entries(1)[OF q])
  have 1: "exec (Get k w) s = Some s" by (simp add: g split: option.splits)
  have 2: "\<exists>x. (k, x) \<in> set ?es \<and> get k w s = Some (True, x, s) \<and> get1 dv k s = Some (x, s)"
    if "k \<in> index_keys s"
  proof -
    from that obtain x where x: "(k, x) \<in> set ?es" unfolding inv_index_keys[OF q] by force
    then have m: "map_of ?es k = Some x" using dk by (rule map_of_is_SomeI[rotated])
    have "get k w' s = Some (True, x, s)" for w' unfolding g m by simp
    then show ?thesis using x by (auto simp: get1_def)
  qed
  have 3: "get k w s = Some (False, w, s) \<and> get1 dv k s = Some (dv, s)" if "k \<notin> index_keys s"
  proof -
    from that have m: "map_of ?es k = None"
      unfolding inv_index_keys[OF q] by (simp only: map_of_eq_None_iff not_False_eq_True)
    have "get k w' s = Some (False, w', s)" for w' unfolding g m by simp
    then show ?thesis by (simp add: get1_def)
  qed
  show ?thesis using inv_queue[OF q] 1 2 3 by blast
qed

theorem get_is_read_only_witness:
  "\<exists>s. KFifoCache (0::nat) (0::nat) 2 \<bind> run [Put 1 10, Put 2 20] = Some s \<and>
     exec (Get 2 7) s = Some s \<and> 2 \<in> index_keys s \<and> 5 \<notin> index_keys s \<and>
     (\<exists>es x. queue s = Some es \<and> (2, x) \<in> set es \<and> get 2 7 s = Some (True, x, s) \<and>
        get1 0 2 s = Some (x, s)) \<and>
     get 5 7 s = Some (False, 7, s) \<and> get1 0 5 s = Some (0, s)"
proof -
  obtain s where s: "KFifoCache (0::nat) (0::nat) 2 \<bind> run [Put 1 (10::nat), Put 2 20] = Some s"
    "index_keys s = fst ` set (fifo_run (sint (2 :: 32 word)) [Put (1::nat) (10::nat), Put 2 20] [])"
    using reachable_obs[of "0::nat" "0::nat" 2 "[Put 1 10, Put 2 20]"] by blast
  have h: "2 \<in> index_keys s" "5 \<notin> index_keys s"
    unfolding s(2) by (simp_all add: fifo_run_def fifo_put_def)
  from get_is_read_only[OF s(1), of 2 7] h(1)
  have 1: "exec (Get 2 7) s = Some s" "\<exists>es x. queue s = Some es \<and> (2, x) \<in> set es \<and>
      get 2 7 s = Some (True, x, s) \<and> get1 0 2 s = Some (x, s)"
    by blast+
  from get_is_read_only[OF s(1), of 5 7] h(2)
  have 2: "get 5 7 s = Some (False, 7, s)" "get1 0 5 s = Some (0, s)" by blast+
  show ?thesis using s(1) 1 h 2 by - (rule exI[of _ s], intro conjI; assumption)
qed

text \<open>
  C5 as stated fails for the two-argument form: on a miss it does not return the
  default payload (here 0) but whatever the caller passed in (here 42).
\<close>

theorem get_miss_returns_default_counterexample:
  "map_option fst (KFifoCache (0::nat) (0::nat) 2 \<bind> run [Put 1 10] \<bind> get 7 42) = Some False \<and>
   map_option (fst \<circ> snd) (KFifoCache (0::nat) (0::nat) 2 \<bind> run [Put 1 10] \<bind> get 7 42) = Some 42 \<and>
   map_option (fst \<circ> snd) (KFifoCache (0::nat) (0::nat) 2 \<bind> run [Put 1 10] \<bind> get 7 42) \<noteq> Some 0"
  by code_simp

text \<open>
  C6.  \<open>remove\<close> of a present key unlinks the entry from the queue and erases it from
  the index; \<open>remove\<close> of an absent key returns the state it was given; either way a
  following \<open>get\<close> reports a miss.  A following \<open>put\<close> of a key that was present makes it
  present again as the last entry of the queue, behind all the entries that stayed, with
  the new payload; no entry is evicted, since the removal made room.  The same \<open>put\<close>
  places the key last in every cache of capacity at least 1, also when the key was absent
  before the \<open>remove\<close>.
\<close>

theorem remove_then_reinsert:
  "KFifoCache dk dv C \<bind> run cs = Some s \<Longrightarrow>
   \<exists>es s1. queue s = Some es \<and> remove k s = Some s1 \<and>
     queue s1 = Some (filter (\<lambda>(k', v'). k' \<noteq> k) es) \<and>
     index_keys s1 = index_keys s - {k} \<and> index_agrees s1 \<and>
     (k \<notin> index_keys s \<longrightarrow> s1 = s) \<and>
     (\<forall>w. get k w s1 = Some (False, w, s1)) \<and>
     (k \<in> index_keys s \<longrightarrow>
        (\<exists>s2. put k v s1 = Some s2 \<and>
           queue s2 = Some (filter (\<lambda>(k', v'). k' \<noteq> k) es @ [(k, v)]) \<and>
           index_keys s2 = index_keys s \<and> index_agrees s2 \<and>
           (\<forall>w. get k w s2 = Some (True, v, s2)))) \<and>
     (1 \<le> sint C \<longrightarrow>
        (\<exists>es' s2. put k v s1 = Some s2 \<and> queue s2 = Some (es' @ [(k, v)]) \<and>
           k \<notin> fst ` set es' \<and> set es' \<subseteq> set es \<and> (\<forall>w. get k w s2 = Some (True, v, s2))))"
proof -
  assume r: "KFifoCache dk dv C \<bind> run cs = Some s"
  obtain q where q: "cache_inv s 0 1 q" "capacity s = C" using reachable_unique[OF r] by blast
  let ?es = "map snd q"
  let ?r = "filter (\<lambda>(k', v'). k' \<noteq> k) ?es"
  obtain s1 q1 where s1: "remove k s = Some s1" "cache_inv s1 0 1 q1" "capacity s1 = capacity s"
    "map snd q1 = fifo_remove k ?es"
    using remove_inv[OF q(1), of k] by blast
  have r1: "map snd q1 = ?r" using s1(4) by (simp add: fifo_remove_def)
  have kr: "k \<notin> fst ` set ?r" by auto
  have 1: "queue s1 = Some ?r" using inv_queue[OF s1(2)] r1 by simp
  have ik: "index_keys s = fst ` set ?es" by (rule inv_index_keys[OF q(1)])
  have 2: "index_keys s1 = index_keys s - {k}"
    unfolding inv_index_keys[OF s1(2)] ik r1 by force
  have 3: "s1 = s" if "k \<notin> index_keys s"
  proof -
    from that have "map_of (nodeMap s) k = None"
      by (simp add: index_keys_def map_of_eq_None_iff)
    then show ?thesis using s1(1) by (simp add: remove_def)
  qed
  have 4: "get k w s1 = Some (False, w, s1)" for w
  proof -
    have m: "map_of ?r k = None" using kr by (simp only: map_of_eq_None_iff not_False_eq_True)
    show ?thesis unfolding get_inv[OF s1(2)] r1 m by simp
  qed
  obtain s2 q2 where s2: "put k v s1 = Some s2" "cache_inv s2 0 1 q2"
    "map snd q2 = fifo_put (sint (capacity s1)) k v (map snd q1)"
    using put_inv[OF s1(2), of k v] by blast
  have look: "\<forall>w. get k w s2 = Some (True, v, s2)" if e2: "map snd q2 = es' @ [(k, v)]"
    and k': "k \<notin> fst ` set es'" for es'
  proof -
    from k' have "map_of es' k = None" by (simp only: map_of_eq_None_iff not_False_eq_True)
    then have m: "map_of (es' @ [(k, v)]) k = Some v" by (simp add: map_add_def)
    show ?thesis unfolding get_inv[OF s2(2)] e2 m by simp
  qed
  have 5: "\<exists>es' s2. put k v s1 = Some s2 \<and> queue s2 = Some (es' @ [(k, v)]) \<and>
           k \<notin> fst ` set es' \<and> set es' \<subseteq> set ?es \<and> (\<forall>w. get k w s2 = Some (True, v, s2))"
    if pos: "1 \<le> sint C"
  proof -
    define es' where "es' = (if sint C \<le> int (length ?r) then tl ?r else ?r)"
    have e2: "map snd q2 = es' @ [(k, v)]"
      unfolding s2(3) r1 using kr pos s1(3) q(2) by (simp add: fifo_put_def es'_def)
    have sub: "set es' \<subseteq> set ?r" unfolding es'_def by (cases ?r) auto
    then have k': "k \<notin> fst ` set es'" using kr by (meson image_mono subsetD)
    have "set es' \<subseteq> set ?es" using sub by auto
    then show ?thesis using s2(1) inv_queue[OF s2(2)] e2 k' look[OF e2 k'] by auto
  qed
  have 6: "\<exists>s2. put k v s1 = Some s2 \<and> queue s2 = Some (?r @ [(k, v)]) \<and>
           index_keys s2 = index_keys s \<and> index_agrees s2 \<and>
           (\<forall>w. get k w s2 = Some (True, v, s2))"
    if pres: "k \<in> index_keys s"
  proof -
    from pres obtain v0 where mem: "(k, v0) \<in> set ?es" unfolding ik by fastforce
    have "length ?r < length ?es"
      by (rule length_filter_less[OF mem]) simp
    moreover have "int (length ?es) \<le> max 0 (sint C)"
      using cache_invD(12)[OF q(1)] q(2) by simp
    ultimately have pos: "1 \<le> sint C" and room: "\<not> sint C \<le> int (length ?r)" by auto
    have e2: "map snd q2 = ?r @ [(k, v)]"
      unfolding s2(3) r1 using kr pos room s1(3) q(2) by (simp add: fifo_put_def)
    have keys: "index_keys s2 = index_keys s"
      unfolding inv_index_keys[OF s2(2)] e2 ik using pres[unfolded ik] by force
    show ?thesis
      using s2(1) inv_queue[OF s2(2)] e2 keys inv_index_agrees[OF s2(2)] look[OF e2 kr] by auto
  qed
  show ?thesis
    using inv_queue[OF q(1)] s1(1) 1 2 inv_index_agrees[OF s1(2)] 3 4 5 6 by blast
qed


theorem remove_then_reinsert_witness:
  "\<exists>s. KFifoCache (0::nat) (0::nat) 2 \<bind> run [Put 1 10, Put 2 20] = Some s \<and>
      queue s = Some [(1, 10), (2, 20)] \<and> 1 \<in> index_keys s \<and> 3 \<notin> index_keys s \<and>
      1 \<le> sint (2 :: 32 word) \<and>
      remove 3 s = Some s \<and> get 3 0 s = Some (False, 0, s) \<and>
      (\<exists>s1. remove 1 s = Some s1 \<and> queue s1 = Some [(2, 20)] \<and>
         index_keys s1 = index_keys s - {1} \<and> index_agrees s1 \<and>
         get 1 0 s1 = Some (False, 0, s1) \<and>
         (\<exists>s2. put 1 11 s1 = Some s2 \<and> queue s2 = Some [(2, 20), (1, 11)] \<and>
            index_keys s2 = index_keys s \<and> index_agrees s2 \<and>
            get 1 0 s2 = Some (True, 11, s2)))"
proof -
  have p: "1 \<le> sint (2 :: 32 word)" by simp
  obtain s where s: "KFifoCache (0::nat) (0::nat) 2 \<bind> run [Put 1 (10::nat), Put 2 20] = Some s"
    "queue s = Some (fifo_run (sint (2 :: 32 word)) [Put (1::nat) (10::nat), Put 2 20] [])"
    "index_keys s = fst ` set (fifo_run (sint (2 :: 32 word)) [Put (1::nat) (10::nat), Put 2 20] [])"
    using reachable_obs[of "0::nat" "0::nat" 2 "[Put 1 10, Put 2 20]"] by blast
  have qs: "queue s = Some [(1, 10), (2, 20)]" unfolding s(2) by (simp add: fifo_run_def fifo_put_def)
  have ks: "index_keys s = {1, 2}" unfolding s(3) by (simp add: fifo_run_def fifo_put_def)
  have k1: "1 \<in> index_keys s" and k3: "3 \<notin> index_keys s" unfolding ks by simp_all
  from remove_then_reinsert[OF s(1), of 3 0] obtain t1 where a:
    "remove 3 s = Some t1" "3 \<notin> index_keys s \<longrightarrow> t1 = s" "\<forall>w. get 3 w t1 = Some (False, w, t1)"
    by (elim exE conjE) (rule that; assumption)
  have t1: "t1 = s" using a(2) k3 by simp
  have a1: "remove 3 s = Some s" using a(1) unfolding t1 .
  have a2: "get 3 0 s = Some (False, 0, s)" using a(3)[rule_format, of 0] unfolding t1 .
  from remove_then_reinsert[OF s(1), of 1 11] obtain es s1 where 1:
    "queue s = Some es" "remove 1 s = Some s1" "queue s1 = Some (filter (\<lambda>(k', v'). k' \<noteq> 1) es)"
    "index_keys s1 = index_keys s - {1}" "index_agrees s1" "\<forall>w. get 1 w s1 = Some (False, w, s1)"
    "1 \<in> index_keys s \<longrightarrow>
        (\<exists>s2. put 1 11 s1 = Some s2 \<and>
           queue s2 = Some (filter (\<lambda>(k', v'). k' \<noteq> 1) es @ [(1, 11)]) \<and>
           index_keys s2 = index_keys s \<and> index_agrees s2 \<and>
           (\<forall>w. get 1 w s2 = Some (True, 11, s2)))"
    by (elim exE conjE) (rule that; assumption)
  have es: "es = [(1, 10), (2, 20)]" using 1(1) qs by simp
  have q1: "queue s1 = Some [(2, 20)]" using 1(3) unfolding es by simp
  from 1(7) k1 obtain s2 where 2: "put 1 11 s1 = Some s2"
    "queue s2 = Some (filter (\<lambda>(k', v'). k' \<noteq> 1) es @ [(1, 11)])"
    "index_keys s2 = index_keys s" "index_agrees s2"
    "\<forall>w. get 1 w s2 = Some (True, 11, s2)" by blast
  have q2: "queue s2 = Some [(2, 20), (1, 11)]" using 2(2) unfolding es by simp
  have 3: "\<exists>s2. put 1 11 s1 = Some s2 \<and> queue s2 = Some [(2, 20), (1, 11)] \<and>
            index_keys s2 = index_keys s \<and> index_agrees s2 \<and>
            get 1 0 s2 = Some (True, 11, s2)"
    using 2(1) q2 2(3,4) 2(5)[rule_format, of 0]
    by - (rule exI[of _ s2], intro conjI; assumption)
  have 4: "\<exists>s1. remove 1 s = Some s1 \<and> queue s1 = Some [(2, 20)] \<and>
         index_keys s1 = index_keys s - {1} \<and> index_agrees s1 \<and>
         get 1 0 s1 = Some (False, 0, s1) \<and>
         (\<exists>s2. put 1 11 s1 = Some s2 \<and> queue s2 = Some [(2, 20), (1, 11)] \<and>
            index_keys s2 = index_keys s \<and> index_agrees s2 \<and>
            get 1 0 s2 = Some (True, 11, s2))"
    using 1(2) q1 1(4,5) 1(6)[rule_format, of 0] 3
    by - (rule exI[of _ s1], intro conjI; assumption)
  show ?thesis using s(1) qs k1 k3 p a1 a2 4
    by - (rule exI[of _ s], intro conjI; assumption)
qed

text \<open>
  C7.  Constructing a cache with a capacity of zero or less succeeds, and the cache
  is inert: \<open>put\<close> returns the state it was given, no sequence of calls changes the
  state, the queue stays empty, and every \<open>get\<close> reports a miss.
\<close>

theorem degenerate_capacity_is_inert:
  "sint C \<le> 0 \<Longrightarrow>
   \<exists>s0. KFifoCache dk dv C = Some s0 \<and> queue s0 = Some [] \<and> entry_count s0 = 0 \<and>
     (\<forall>k v. put k v s0 = Some s0) \<and> (\<forall>cs. run cs s0 = Some s0) \<and>
     (\<forall>k w. get k w s0 = Some (False, w, s0))"
proof -
  assume neg: "sint C \<le> 0"
  obtain s0 where s0: "KFifoCache dk dv C = Some s0" "cache_inv s0 0 1 []" "capacity s0 = C"
    using init_inv[of dk dv C] by blast
  have "queue s0 = Some []" using inv_queue[OF s0(2)] by simp
  moreover have "entry_count s0 = 0" using inv_entry_count[OF s0(2)] by simp
  moreover have "put k v s0 = Some s0" for k v using neg s0(3) by (simp add: put_def)
  moreover have "run cs s0 = Some s0" for cs using empty_inert[OF s0(2)] neg s0(3) by simp
  moreover have "get k w s0 = Some (False, w, s0)" for k w using get_inv[OF s0(2)] by simp
  ultimately show ?thesis using s0(1) by blast
qed

theorem degenerate_capacity_is_inert_witness:
  "sint (0 :: 32 word) \<le> 0 \<and>
   (\<exists>s0. KFifoCache (0::nat) (0::nat) 0 = Some s0 \<and> queue s0 = Some [] \<and>
      put 1 10 s0 = Some s0 \<and> run [Put 1 10, Get 1 0, Remove 1, Put 2 20] s0 = Some s0 \<and>
      get 1 5 s0 = Some (False, 5, s0))"
  using degenerate_capacity_is_inert[of 0 "0::nat" "0::nat"] by auto

text \<open>
  C8.  In every state of a sharded cache that has shards, \<open>hash_put\<close> and \<open>hash_get\<close>
  act on the shard whose index is the hash of the key modulo the shard count, the
  shard count is the one fixed at construction, and, when that shard has capacity at
  least 1, \<open>hash_put\<close> of \<open>k\<close> and \<open>v\<close> followed by \<open>hash_get\<close> of \<open>k\<close> finds \<open>v\<close> in that shard.
\<close>

theorem sharding_consistency:
  "KHashFifoCache hw dk dv T N \<bind> hash_run hashFunc cs = Some h \<Longrightarrow> fifoSliceCaches h \<noteq> [] \<Longrightarrow>
   \<exists>i. i = unat (hashFunc k) mod nat (sint (sliceNum h)) \<and> i < length (fifoSliceCaches h) \<and>
     sliceNum h = (if 0 < sint N then N else hw) \<and>
     hash_put hashFunc k v h =
       map_option (\<lambda>s. h\<lparr>fifoSliceCaches := (fifoSliceCaches h)[i := s]\<rparr>)
         (put k v (fifoSliceCaches h ! i)) \<and>
     hash_get hashFunc k w h =
       map_option (\<lambda>(b, x, s). (b, x, h\<lparr>fifoSliceCaches := (fifoSliceCaches h)[i := s]\<rparr>))
         (get k w (fifoSliceCaches h ! i)) \<and>
     (1 \<le> sint (capacity (fifoSliceCaches h ! i)) \<longrightarrow>
        (\<exists>h'. hash_put hashFunc k v h = Some h' \<and> sliceNum h' = sliceNum h \<and>
           get k w (fifoSliceCaches h' ! i) = Some (True, v, fifoSliceCaches h' ! i) \<and>
           hash_get hashFunc k w h' = Some (True, v, h')))"
proof -
  assume r: "KHashFifoCache hw dk dv T N \<bind> hash_run hashFunc cs = Some h"
    and ne: "fifoSliceCaches h \<noteq> []"
  from r obtain h0 where h0: "KHashFifoCache hw dk dv T N = Some h0"
    "hash_run hashFunc cs h0 = Some h"
    by (cases "KHashFifoCache hw dk dv T N") simp_all
  obtain c where c0: "hash_inv h0 c" using constructor_inv(1)[OF h0(1)] by blast
  have inv: "hash_inv h c" and sn: "sliceNum h = (if 0 < sint N then N else hw)"
    using hash_run_inv[OF c0 h0(2)] constructor_inv(2)[OF h0(1)] by simp_all
  have "length (fifoSliceCaches h) = nat (sint (sliceNum h))" using inv by (simp add: hash_inv_def)
  then have "nat (sint (sliceNum h)) \<noteq> 0" using ne by (cases "fifoSliceCaches h") simp_all
  then have pos: "0 < sint (sliceNum h)" by linarith
  let ?l = "fifoSliceCaches h"
  let ?i = "unat (hashFunc k) mod nat (sint (sliceNum h))"
  have ih: "unat (Hash hashFunc k mod scast (sliceNum h)) = ?i"
    using slice_index_bound(1)[OF pos] by (simp add: Hash_def)
  from hash_put_inv[OF inv pos, of hashFunc k v, unfolded ih] obtain s' where s':
    "?i < length ?l" "put k v (?l ! ?i) = Some s'" "capacity s' = c"
    "hash_put hashFunc k v h = Some (h\<lparr>fifoSliceCaches := ?l[?i := s']\<rparr>)"
    "hash_inv (h\<lparr>fifoSliceCaches := ?l[?i := s']\<rparr>) c"
    "1 \<le> sint c \<longrightarrow> (\<forall>w. get k w s' = Some (True, v, s'))" by blast
  from hash_get_inv[OF inv pos, of hashFunc k w, unfolded ih] obtain b x where g:
    "get k w (?l ! ?i) = Some (b, x, ?l ! ?i)" "hash_get hashFunc k w h = Some (b, x, h)" by blast
  have ci: "capacity (?l ! ?i) = c" using inv s'(1) by (simp add: hash_inv_def)
  have 1: "hash_put hashFunc k v h =
       map_option (\<lambda>s. h\<lparr>fifoSliceCaches := ?l[?i := s]\<rparr>) (put k v (?l ! ?i))"
    using s'(2,4) by simp
  have 2: "hash_get hashFunc k w h =
       map_option (\<lambda>(b, x, s). (b, x, h\<lparr>fifoSliceCaches := ?l[?i := s]\<rparr>)) (get k w (?l ! ?i))"
    using g by simp
  have 3: "\<exists>h'. hash_put hashFunc k v h = Some h' \<and> sliceNum h' = sliceNum h \<and>
           get k w (fifoSliceCaches h' ! ?i) = Some (True, v, fifoSliceCaches h' ! ?i) \<and>
           hash_get hashFunc k w h' = Some (True, v, h')"
    if "1 \<le> sint (capacity (?l ! ?i))"
  proof -
    let ?h' = "h\<lparr>fifoSliceCaches := ?l[?i := s']\<rparr>"
    have gs: "get k w s' = Some (True, v, s')" using that s'(6) ci by simp
    have nth: "fifoSliceCaches ?h' ! ?i = s'" using s'(1) by simp
    have pos': "0 < sint (sliceNum ?h')" using pos by simp
    from hash_get_inv[OF s'(5) pos', of hashFunc k w] obtain b' x' where
      "get k w (fifoSliceCaches ?h' ! ?i) = Some (b', x', fifoSliceCaches ?h' ! ?i)"
      "hash_get hashFunc k w ?h' = Some (b', x', ?h')"
      using ih by auto
    then have "hash_get hashFunc k w ?h' = Some (True, v, ?h')" using gs nth by simp
    then show ?thesis using s'(4) gs nth by (intro exI[of _ ?h']) simp
  qed
  show ?thesis using s'(1) sn 1 2 3 by blast
qed

theorem sharding_consistency_witness:
  "\<exists>h. KHashFifoCache 8 (0::nat) (0::nat) 10 3 \<bind>
         hash_run of_nat [HashPut 1 10, HashPut 2 20, HashGet 1 0] = Some h \<and>
     fifoSliceCaches h \<noteq> [] \<and> sliceNum h = 3 \<and> 1 \<le> sint (capacity (fifoSliceCaches h ! 1)) \<and>
     (\<exists>h'. hash_put of_nat 4 40 h = Some h' \<and> sliceNum h' = sliceNum h \<and>
        get 4 0 (fifoSliceCaches h' ! 1) = Some (True, 40, fifoSliceCaches h' ! 1) \<and>
        hash_get of_nat 4 0 h' = Some (True, 40, h'))"
proof -
  let ?X = "KHashFifoCache 8 (0::nat) (0::nat) 10 3 \<bind>
         hash_run of_nat [HashPut 1 (10::nat), HashPut 2 20, HashGet 1 0]"
  have "map_option (\<lambda>h. (length (fifoSliceCaches h), sint (capacity (fifoSliceCaches h ! 1)))) ?X
      = Some (3, 4)"
    by code_simp
  then obtain h where h: "?X = Some h" "length (fifoSliceCaches h) = 3"
    "sint (capacity (fifoSliceCaches h ! 1)) = 4" by auto
  have ne: "fifoSliceCaches h \<noteq> []" using h(2) by auto
  from sharding_consistency[OF h(1) ne, of 4 40 0] obtain i where i:
    "i = unat (of_nat 4 :: 64 word) mod nat (sint (sliceNum h))"
    "sliceNum h = (if 0 < sint (3 :: 32 word) then 3 else 8)"
    "1 \<le> sint (capacity (fifoSliceCaches h ! i)) \<longrightarrow>
        (\<exists>h'. hash_put of_nat 4 40 h = Some h' \<and> sliceNum h' = sliceNum h \<and>
           get 4 0 (fifoSliceCaches h' ! i) = Some (True, 40, fifoSliceCaches h' ! i) \<and>
           hash_get of_nat 4 0 h' = Some (True, 40, h'))"
    by (elim exE conjE) (rule that; assumption)
  have sn: "sliceNum h = 3" using i(2) by simp
  have i1: "i = 1" unfolding i(1) sn by simp
  show ?thesis using h(1) ne sn h(3) i(3) unfolding i1 by - (rule exI[of _ h], simp)
qed

text \<open>
  C9.  The claim that every shard gets the capacity \<open>\<lceil>T / N\<rceil>\<close> fails outside the range of
  the shard's \<^verbatim>\<open>int\<close> parameter.  Asked for a total capacity of \<open>2\<^sup>3\<^sup>1\<close> in one shard, the
  constructor computes the shard size \<open>2\<^sup>3\<^sup>1\<close> and narrows it: the shard's capacity is
  \<open>- 2\<^sup>3\<^sup>1\<close>, not \<open>\<lceil>2\<^sup>3\<^sup>1 / 1\<rceil>\<close>, and the cache stores nothing.  The quotient is also taken in
  double precision: for \<open>T = 2\<^sup>5\<^sup>3 + 1\<close> and \<open>N = 2\<^sup>3\<^sup>0\<close> the shard size comes out as \<open>2\<^sup>2\<^sup>3\<close>, one
  less than \<open>\<lceil>T / N\<rceil>\<close>.  Within range, \<open>shard_capacity_in_range\<close> above, the constructor
  does build \<open>N\<close> shards of capacity \<open>\<lceil>T / N\<rceil>\<close>.
\<close>

theorem shard_capacity_is_narrowed:
  "map_option (map (sint \<circ> capacity) \<circ> fifoSliceCaches)
     (KHashFifoCache 8 (0::nat) (0::nat) 2147483648 1) = Some [- 2147483648] \<and>
   \<lceil>(2147483648 :: rat) / 1\<rceil> = 2147483648 \<and>
   map_option fst (KHashFifoCache 8 (0::nat) (0::nat) 2147483648 1 \<bind>
     hash_put of_nat 1 10 \<bind> hash_get of_nat 1 0) = Some False \<and>
   \<lceil>round_double (round_double (of_int (uint (9007199254740993 :: 64 word))) /
      of_int (sint (1073741824 :: 32 word)))\<rceil> = 8388608 \<and>
   \<lceil>(9007199254740993 :: rat) / 1073741824\<rceil> = 8388609"
  by code_simp

text \<open>
  C10.  On a miss the two-argument \<open>get\<close> returns false and hands back the caller's
  variable as it came in; the one-argument \<open>get1\<close> returns the default payload \<open>dv\<close>.
\<close>

theorem get_miss_keeps_argument:
  "k \<notin> index_keys s \<Longrightarrow> get k w s = Some (False, w, s) \<and> get1 dv k s = Some (dv, s)"
proof -
  assume "k \<notin> index_keys s"
  then have "map_of (nodeMap s) k = None"
    by (simp add: index_keys_def map_of_eq_None_iff)
  then show ?thesis by (simp add: get_def get1_def)
qed

theorem get_miss_keeps_argument_witness:
  "\<exists>s. KFifoCache (0::nat) (0::nat) 2 \<bind> run [Put 1 10] = Some s \<and> 7 \<notin> index_keys s \<and>
     get 7 42 s = Some (False, 42, s) \<and> get1 0 7 s = Some (0, s)"
proof -
  obtain s where s: "KFifoCache (0::nat) (0::nat) 2 \<bind> run [Put 1 (10::nat)] = Some s"
    "index_keys s = fst ` set (fifo_run (sint (2 :: 32 word)) [Put 1 (10::nat)] [])"
    using reachable_obs[of "0::nat" "0::nat" 2 "[Put 1 10]"] by blast
  have a: "(7::nat) \<notin> index_keys s" unfolding s(2) by (simp add: fifo_run_def fifo_put_def)
  from get_miss_keeps_argument[OF a, of 42 0] s(1) a show ?thesis by blast
qed

end
